theory Spec2Isabelle
  imports Main
begin

section \<open>JavaScript values\<close>

text \<open>
  The values that flow through the promises of \<^verbatim>\<open>06-promises-tasks.js\<close>: primitives, arrays
  (the \<^verbatim>\<open>results\<close> array that \<^verbatim>\<open>chainPromises\<close> hands to \<^verbatim>\<open>allProms\<close>), and the error
  objects \<^verbatim>\<open>new Error(msg)\<close> and \<^verbatim>\<open>TypeError\<close>. Numbers are integers. No value is a thenable:
  a promise is never the value another promise is resolved with.
\<close>

datatype val =
    Undefined
  | Null
  | Bool bool
  | Num int
  | Str string
  | Arr "val list"
  | Error string
  | TypeError string

fun typeof :: "val \<Rightarrow> string" where
  "typeof Undefined = ''undefined''"
| "typeof Null = ''object''"
| "typeof (Bool b) = ''boolean''"
| "typeof (Num n) = ''number''"
| "typeof (Str s) = ''string''"
| "typeof (Arr vs) = ''object''"
| "typeof (Error m) = ''object''"
| "typeof (TypeError m) = ''object''"

text \<open>The truthiness that the conditional operator \<^verbatim>\<open>c ? a : b\<close> tests.\<close>

fun ToBoolean :: "val \<Rightarrow> bool" where
  "ToBoolean Undefined = False"
| "ToBoolean Null = False"
| "ToBoolean (Bool b) = b"
| "ToBoolean (Num n) = (n \<noteq> 0)"
| "ToBoolean (Str s) = (s \<noteq> [])"
| "ToBoolean (Arr vs) = True"
| "ToBoolean (Error m) = True"
| "ToBoolean (TypeError m) = True"

text \<open>A call either returns a value or throws one.\<close>

datatype completion = Normal val | Throw val

section \<open>Array.prototype.reduce without an initial value\<close>

text \<open>
  \<^verbatim>\<open>values.reduce(action)\<close>: on the empty array it throws a TypeError before any call of
  the callback; otherwise the first element is the seed and the callback is called with
  (accumulator, element, index, array) for the elements from index 1 on. A callback that
  throws ends the fold. The second component lists the calls of the callback that were
  made, in order; nothing reads it but the theorems.
\<close>

type_synonym reducer = "val \<Rightarrow> val \<Rightarrow> nat \<Rightarrow> val list \<Rightarrow> completion"

datatype probe =
    Invoked val val nat
  | Fired
  | ResCalled val

fun reduce_from :: "reducer \<Rightarrow> val list \<Rightarrow> nat \<Rightarrow> val \<Rightarrow> val list \<Rightarrow> completion \<times> probe list" where
  "reduce_from action arr k acc [] = (Normal acc, [])"
| "reduce_from action arr k acc (x # xs) =
     (case action acc x k arr of
        Throw e \<Rightarrow> (Throw e, [Invoked acc x k])
      | Normal acc' \<Rightarrow>
          (case reduce_from action arr (Suc k) acc' xs of
             (c, calls) \<Rightarrow> (c, Invoked acc x k # calls)))"

definition reduce :: "reducer \<Rightarrow> val list \<Rightarrow> completion \<times> probe list" where
  "reduce action arr =
     (case arr of
        [] \<Rightarrow> (Throw (TypeError ''Reduce of empty array with no initial value''), [])
      | x # xs \<Rightarrow> reduce_from action arr 1 x xs)"

text \<open>A pure binary function \<^verbatim>\<open>(a, b) => ...\<close> as a callback: it ignores index and array.\<close>

definition binary :: "(val \<Rightarrow> val \<Rightarrow> val) \<Rightarrow> reducer" where
  "binary op = (\<lambda>a b i arr. Normal (op a b))"

section \<open>The promise runtime\<close>

text \<open>
  Promises live in a heap, addressed by their position. A pending promise keeps the
  registrations made by \<^verbatim>\<open>then\<close> (handler for fulfilment, handler for rejection, derived
  promise), in order; ECMAScript keeps them as two parallel lists that are always extended
  together. Settling a promise moves its registrations to the job queue, which runs first
  in, first out. Callbacks are closures of the source file; a closure is a constructor with
  the immutable variables it captures, and \<open>call\<close> below is its body.
\<close>

type_synonym pid = nat

datatype pstate = Pending | Fulfilled val | Rejected val

datatype handler =
    CallResolve pid
  | CallReject pid
  | OnTaskValue nat pid
  | OnTaskError nat pid
  | OnAllProms reducer pid
  | ResolveElement nat pid

datatype reg = Reg "handler option" "handler option" pid

datatype kind = Fulfill | Reject

datatype job = Job kind "handler option" pid val

record promise =
  status :: pstate
  reactions :: "reg list"

text \<open>
  \<open>results\<close> and \<open>promisesCompleted\<close> are the two variables that the callbacks of
  \<^verbatim>\<open>chainPromises\<close> share; \<open>all_values\<close> and \<open>remainingElementsCount\<close> are the ones
  that the element functions of \<^verbatim>\<open>Promise.all\<close> share. \<open>probes\<close> is a log of the
  calls of the caller's reducer, of the finalization test succeeding and of the calls of
  \<^verbatim>\<open>res\<close>; no definition reads it.
\<close>

record state =
  heap :: "promise list"
  jobs :: "job list"
  results :: "val list"
  promisesCompleted :: nat
  all_values :: "val list"
  remainingElementsCount :: nat
  probes :: "probe list"

definition new_promise :: "state \<Rightarrow> pid \<times> state" where
  "new_promise s =
     (length (heap s), s\<lparr>heap := heap s @ [\<lparr>status = Pending, reactions = []\<rparr>]\<rparr>)"

fun job_of :: "kind \<Rightarrow> val \<Rightarrow> reg \<Rightarrow> job" where
  "job_of Fulfill v (Reg onFulfilled onRejected d) = Job Fulfill onFulfilled d v"
| "job_of Reject v (Reg onFulfilled onRejected d) = Job Reject onRejected d v"

fun settled :: "kind \<Rightarrow> val \<Rightarrow> pstate" where
  "settled Fulfill v = Fulfilled v"
| "settled Reject e = Rejected e"

definition settle_promise :: "kind \<Rightarrow> pid \<Rightarrow> val \<Rightarrow> state \<Rightarrow> state" where
  "settle_promise k p v s =
     s\<lparr>heap := (heap s)[p := \<lparr>status = settled k v, reactions = []\<rparr>],
       jobs := jobs s @ map (job_of k v) (reactions (heap s ! p))\<rparr>"

text \<open>
  The resolving functions handed to an executor, \<open>resolve\<close> and \<open>reject\<close>. They
  act on a pending promise only: after the first call of either, every later call is
  ignored.
\<close>

definition resolving :: "kind \<Rightarrow> pid \<Rightarrow> val \<Rightarrow> state \<Rightarrow> state" where
  "resolving k p v s =
     (if p < length (heap s) \<and> status (heap s ! p) = Pending then settle_promise k p v s else s)"

abbreviation resolve :: "pid \<Rightarrow> val \<Rightarrow> state \<Rightarrow> state" where
  "resolve p v s \<equiv> resolving Fulfill p v s"

abbreviation reject :: "pid \<Rightarrow> val \<Rightarrow> state \<Rightarrow> state" where
  "reject p e s \<equiv> resolving Reject p e s"

text \<open>
  \<^verbatim>\<open>p.then(onFulfilled, onRejected)\<close>: a derived promise is created; on a pending promise
  the handlers are registered, on a settled one the matching job is queued at once.
\<close>

definition then_promise :: "pid \<Rightarrow> handler option \<Rightarrow> handler option \<Rightarrow> state \<Rightarrow> pid \<times> state" where
  "then_promise p onFulfilled onRejected s =
     (case new_promise s of (d, s1) \<Rightarrow>
        (d, case status (heap s1 ! p) of
              Pending \<Rightarrow>
                s1\<lparr>heap := (heap s1)[p := (heap s1 ! p)
                      \<lparr>reactions := reactions (heap s1 ! p) @ [Reg onFulfilled onRejected d]\<rparr>]\<rparr>
            | Fulfilled v \<Rightarrow> s1\<lparr>jobs := jobs s1 @ [Job Fulfill onFulfilled d v]\<rparr>
            | Rejected e \<Rightarrow> s1\<lparr>jobs := jobs s1 @ [Job Reject onRejected d e]\<rparr>))"

definition catch_promise :: "pid \<Rightarrow> handler option \<Rightarrow> state \<Rightarrow> pid \<times> state" where
  "catch_promise p onRejected s = then_promise p None onRejected s"

text \<open>
  The bodies of the callbacks.
  \<^item> \<open>CallResolve p\<close> is \<^verbatim>\<open>(values) => resolve(values)\<close> (lines 58, 85) and the resolving
    function itself; \<open>CallReject p\<close> is \<^verbatim>\<open>(err) => reject(err)\<close> (lines 59, 86).
  \<^item> \<open>OnTaskValue n allProms\<close> is the callback of line 113, \<open>OnTaskError n allProms\<close> the
    one of line 120, with \<open>n\<close> the value of \<^verbatim>\<open>array.length\<close>.
  \<^item> \<open>OnAllProms action res\<close> is the callback of line 129.
  \<^item> \<open>ResolveElement index all\<close> is the element function of \<^verbatim>\<open>Promise.all\<close>.
\<close>

fun call :: "handler \<Rightarrow> val \<Rightarrow> state \<Rightarrow> completion \<times> state" where
  "call (CallResolve p) v s = (Normal Undefined, resolve p v s)"
| "call (CallReject p) e s = (Normal Undefined, reject p e s)"
| "call (OnTaskValue n allProms) v s =
     (let s1 = s\<lparr>results := results s @ [v]\<rparr>;
          s2 = s1\<lparr>promisesCompleted := promisesCompleted s1 + 1\<rparr>
      in (Normal Undefined,
          if promisesCompleted s2 = n
          then resolve allProms (Arr (results s2)) (s2\<lparr>probes := probes s2 @ [Fired]\<rparr>)
          else s2))"
| "call (OnTaskError n allProms) e s =
     (let s1 = s\<lparr>promisesCompleted := promisesCompleted s + 1\<rparr>
      in (Normal Undefined,
          if promisesCompleted s1 = n
          then resolve allProms (Arr (results s1)) (s1\<lparr>probes := probes s1 @ [Fired]\<rparr>)
          else s1))"
| "call (OnAllProms action res) v s =
     (case v of
        Arr vs \<Rightarrow>
          (case reduce action vs of
             (Normal r, calls) \<Rightarrow>
               (Normal Undefined, resolve res r (s\<lparr>probes := probes s @ calls @ [ResCalled r]\<rparr>))
           | (Throw e, calls) \<Rightarrow> (Throw e, s\<lparr>probes := probes s @ calls\<rparr>))
      | _ \<Rightarrow> (Throw (TypeError ''values.reduce is not a function''), s))"
| "call (ResolveElement index all) x s =
     (let s1 = s\<lparr>all_values := (all_values s)[index := x]\<rparr>;
          s2 = s1\<lparr>remainingElementsCount := remainingElementsCount s1 - 1\<rparr>
      in (Normal Undefined,
          if remainingElementsCount s2 = 0 then resolve all (Arr (all_values s2)) s2 else s2))"

text \<open>
  A reaction job: without a handler the settlement passes through to the derived promise;
  with one, the derived promise is resolved with what the handler returns and rejected
  with what it throws.
\<close>

fun run_job :: "job \<Rightarrow> state \<Rightarrow> state" where
  "run_job (Job Fulfill None d v) s = resolve d v s"
| "run_job (Job Reject None d e) s = reject d e s"
| "run_job (Job k (Some h) d v) s =
     (case call h v s of
        (Normal r, s1) \<Rightarrow> resolve d r s1
      | (Throw e, s1) \<Rightarrow> reject d e s1)"

definition tick :: "state \<Rightarrow> state" where
  "tick s = (case jobs s of [] \<Rightarrow> s | j # js \<Rightarrow> run_job j (s\<lparr>jobs := js\<rparr>))"

section \<open>The functions of the source file\<close>

definition yes :: string where
  \<open>yes = ''Hooray!!! She said "Yes"!''\<close>

definition no :: string where
  \<open>no = ''Oh no, she said "No".''\<close>

definition wrong :: string where
  "wrong = ''Wrong parameter is passed! Ask her again.''"

definition willYouMarryMe :: "val \<Rightarrow> state \<Rightarrow> pid \<times> state" where
  "willYouMarryMe isPositiveAnswer s0 =
     (case new_promise s0 of (p, s1) \<Rightarrow>
        (let s2 = (if typeof isPositiveAnswer \<noteq> ''boolean'' then reject p (Error wrong) s1 else s1);
             answer = (if ToBoolean isPositiveAnswer then Str yes else Str no)
         in (p, resolve p answer s2)))"

definition chain_each :: "nat \<Rightarrow> pid \<Rightarrow> pid \<Rightarrow> state \<Rightarrow> state" where
  "chain_each n allProms promis s =
     (case then_promise promis (Some (OnTaskValue n allProms)) None s of (d1, s1) \<Rightarrow>
      case catch_promise promis (Some (OnTaskError n allProms)) s1 of (d2, s2) \<Rightarrow> s2)"

definition chainPromises :: "pid list \<Rightarrow> reducer \<Rightarrow> state \<Rightarrow> pid \<times> state" where
  "chainPromises array action s0 =
     (case new_promise s0 of (result, s1) \<Rightarrow>
      case new_promise (s1\<lparr>results := [], promisesCompleted := 0\<rparr>) of (allProms, s2) \<Rightarrow>
      case then_promise allProms (Some (OnAllProms action result)) None
             (fold (chain_each (length array) allProms) array s2) of (d, s3) \<Rightarrow>
        (result, s3))"

text \<open>
  Modelled from the spec: \<^verbatim>\<open>Promise.all\<close> and \<^verbatim>\<open>Promise.race\<close> are functions of the
  JavaScript runtime, not of the source file; they are the spec's aggregate-all and
  first-to-settle delegates. The definitions follow the algorithm that ECMAScript gives
  for them. \<^verbatim>\<open>Promise.all\<close> keeps the list of values and the count of elements that
  are still awaited: the count starts at 1, each element appends a slot, raises the count
  and registers its element function and the \<^verbatim>\<open>reject\<close> of the new promise; after the
  loop the count is lowered once, and the promise is resolved if it is 0 (the empty
  array). \<^verbatim>\<open>Promise.race\<close> registers the \<^verbatim>\<open>resolve\<close> and the \<^verbatim>\<open>reject\<close> of the new
  promise on every element.
\<close>

definition all_each :: "pid \<Rightarrow> nat \<Rightarrow> pid \<Rightarrow> state \<Rightarrow> state" where
  "all_each all index p s =
     (let s1 = s\<lparr>all_values := all_values s @ [Undefined]\<rparr>;
          s2 = s1\<lparr>remainingElementsCount := remainingElementsCount s1 + 1\<rparr>
      in snd (then_promise p (Some (ResolveElement index all)) (Some (CallReject all)) s2))"

fun all_loop :: "pid \<Rightarrow> nat \<Rightarrow> pid list \<Rightarrow> state \<Rightarrow> state" where
  "all_loop all index [] s = s"
| "all_loop all index (p # ps) s = all_loop all (Suc index) ps (all_each all index p s)"

definition Promise_all :: "pid list \<Rightarrow> state \<Rightarrow> pid \<times> state" where
  "Promise_all array s0 =
     (case new_promise s0 of (all, s1) \<Rightarrow>
        (let s2 = all_loop all 0 array (s1\<lparr>all_values := [], remainingElementsCount := 1\<rparr>);
             s3 = s2\<lparr>remainingElementsCount := remainingElementsCount s2 - 1\<rparr>
         in (all, if remainingElementsCount s3 = 0 then resolve all (Arr (all_values s3)) s3 else s3)))"

definition race_each :: "pid \<Rightarrow> pid \<Rightarrow> state \<Rightarrow> state" where
  "race_each race p s = snd (then_promise p (Some (CallResolve race)) (Some (CallReject race)) s)"

definition Promise_race :: "pid list \<Rightarrow> state \<Rightarrow> pid \<times> state" where
  "Promise_race array s0 =
     (case new_promise s0 of (race, s1) \<Rightarrow> (race, fold (race_each race) array s1))"

definition processAllPromises :: "pid list \<Rightarrow> state \<Rightarrow> pid \<times> state" where
  "processAllPromises array s0 =
     (case new_promise s0 of (result, s1) \<Rightarrow>
      case Promise_all array s1 of (all, s2) \<Rightarrow>
      case then_promise all (Some (CallResolve result)) None s2 of (d1, s3) \<Rightarrow>
      case catch_promise all (Some (CallReject result)) s3 of (d2, s4) \<Rightarrow>
        (result, s4))"

definition getFastestPromise :: "pid list \<Rightarrow> state \<Rightarrow> pid \<times> state" where
  "getFastestPromise array s0 =
     (case new_promise s0 of (result, s1) \<Rightarrow>
      case Promise_race array s1 of (race, s2) \<Rightarrow>
      case then_promise race (Some (CallResolve result)) None s2 of (d1, s3) \<Rightarrow>
      case catch_promise race (Some (CallReject result)) s3 of (d2, s4) \<Rightarrow>
        (result, s4))"

section \<open>Tasks and schedules\<close>

text \<open>
  The tasks are the first \<open>n\<close> promises of the heap; only the environment holds their
  resolving functions. A schedule is a sequence of events: the environment settles a task,
  or the runtime runs the next job of the queue. The settlement of a task that is already
  settled, or that does not exist, is ignored.
\<close>

datatype outcome = Ok val | Fail val

datatype event = Settle pid outcome | Tick

definition world :: "nat \<Rightarrow> state" where
  "world n =
     \<lparr>heap = replicate n \<lparr>status = Pending, reactions = []\<rparr>, jobs = [], results = [],
      promisesCompleted = 0, all_values = [], remainingElementsCount = 0, probes = []\<rparr>"

fun settle_task :: "pid \<Rightarrow> outcome \<Rightarrow> state \<Rightarrow> state" where
  "settle_task p (Ok v) s = resolve p v s"
| "settle_task p (Fail e) s = reject p e s"

fun step :: "nat \<Rightarrow> event \<Rightarrow> state \<Rightarrow> state" where
  "step n (Settle p out) s = (if p < n then settle_task p out s else s)"
| "step n Tick s = tick s"

definition run :: "nat \<Rightarrow> event list \<Rightarrow> state \<Rightarrow> state" where
  "run n evs s = fold (step n) evs s"

section \<open>Draining the job queue\<close>

text \<open>
  Running a job moves registrations to the queue but never creates one, so the number
  of queued jobs plus the number of registrations decreases with every job: the queue
  always empties.
\<close>

definition weight :: "state \<Rightarrow> nat" where
  "weight s = length (jobs s) + sum_list (map (\<lambda>pr. length (reactions pr)) (heap s))"

lemma sum_list_map_update:
  "p < length xs \<Longrightarrow> sum_list (map f (xs[p := x])) + f (xs ! p) = sum_list (map f xs) + (f x :: nat)"
proof (induction xs arbitrary: p)
  case Nil
  then show ?case by simp
next
  case (Cons a xs)
  then show ?case by (cases p) auto
qed

lemma weight_settle_promise:
  "p < length (heap s) \<Longrightarrow> weight (settle_promise k p v s) = weight s"
  using sum_list_map_update [of p "heap s" "\<lambda>pr. length (reactions pr)"
      "\<lparr>status = settled k v, reactions = []\<rparr>"]
  by (simp add: weight_def settle_promise_def)

lemma weight_resolving [simp]: "weight (resolving k p v s) = weight s"
  by (simp add: resolving_def weight_settle_promise)

lemma weight_upd [simp]:
  "weight (s\<lparr>results := a\<rparr>) = weight s"
  "weight (s\<lparr>promisesCompleted := b\<rparr>) = weight s"
  "weight (s\<lparr>all_values := c\<rparr>) = weight s"
  "weight (s\<lparr>remainingElementsCount := d\<rparr>) = weight s"
  "weight (s\<lparr>probes := e\<rparr>) = weight s"
  by (simp_all add: weight_def)

lemma weight_call: "weight (snd (call h v s)) = weight s"
  by (cases h) (auto simp: Let_def split: val.splits completion.splits prod.splits)

lemma weight_run_job: "weight (run_job j s) = weight s"
proof (cases j)
  case (Job k h d v)
  show ?thesis
  proof (cases h)
    case None
    with Job show ?thesis by (cases k) simp_all
  next
    case (Some f)
    with Job weight_call [of f v s] show ?thesis
      by (auto split: prod.splits completion.splits)
  qed
qed

lemma weight_tick: "jobs s \<noteq> [] \<Longrightarrow> weight (tick s) < weight s"
  by (cases "jobs s") (simp_all add: tick_def weight_run_job, simp add: weight_def)

function drain :: "state \<Rightarrow> state" where
  "drain s = (if jobs s = [] then s else drain (tick s))"
  by pat_completeness auto
termination
  by (relation "measure weight") (simp_all add: weight_tick)

declare drain.simps [simp del]

lemma drain_empty: "jobs s = [] \<Longrightarrow> drain s = s"
  by (subst drain.simps) simp

lemma drain_unfold:
  "drain s = (case jobs s of [] \<Rightarrow> s | j # js \<Rightarrow> drain (run_job j (s\<lparr>jobs := js\<rparr>)))"
  by (subst drain.simps) (simp add: tick_def split: list.splits)

lemma jobs_drain [simp]: "jobs (drain s) = []"
  by (induction s rule: drain.induct) (subst drain.simps, simp)

section \<open>Bookkeeping for the proofs about chainPromises\<close>

fun task_obs :: "job \<Rightarrow> outcome option" where
  "task_obs (Job Fulfill (Some (OnTaskValue m q)) d v) = Some (Ok v)"
| "task_obs (Job Reject (Some (OnTaskError m q)) d e) = Some (Fail e)"
| "task_obs j = None"

definition qobs :: "state \<Rightarrow> outcome list" where
  "qobs s = List.map_filter task_obs (jobs s)"

fun is_final :: "job \<Rightarrow> bool" where
  "is_final (Job k (Some (OnAllProms a r)) d v) = True"
| "is_final j = False"

fun mk :: "kind \<Rightarrow> val \<Rightarrow> outcome" where
  "mk Fulfill v = Ok v"
| "mk Reject e = Fail e"

definition regs_obs :: "kind \<Rightarrow> val \<Rightarrow> reg list \<Rightarrow> outcome list" where
  "regs_obs k v rs = List.map_filter task_obs (map (job_of k v) rs)"

definition pend :: "pid list \<Rightarrow> state \<Rightarrow> nat" where
  "pend A s = length (filter (\<lambda>p. status (heap s ! p) = Pending) A)"

definition final_job :: "nat \<Rightarrow> pid list \<Rightarrow> reducer \<Rightarrow> state \<Rightarrow> job" where
  "final_job n A action s =
     Job Fulfill (Some (OnAllProms action n)) (n + 2 + 2 * length A) (Arr (results s))"

definition plain_job :: "nat \<Rightarrow> pid list \<Rightarrow> job \<Rightarrow> bool" where
  "plain_job n A j =
     (\<exists>k h d v. j = Job k h d v \<and> n + 2 \<le> d \<and> d < n + 2 + 2 * length A \<and>
        (h = None \<or> (k = Fulfill \<and> h = Some (OnTaskValue (length A) (Suc n))) \<or>
         (k = Reject \<and> h = Some (OnTaskError (length A) (Suc n)))))"

definition good_reg :: "nat \<Rightarrow> pid list \<Rightarrow> reg \<Rightarrow> bool" where
  "good_reg n A r =
     (\<exists>d. n + 2 \<le> d \<and> d < n + 2 + 2 * length A \<and>
        (r = Reg (Some (OnTaskValue (length A) (Suc n))) None d \<or>
         r = Reg None (Some (OnTaskError (length A) (Suc n))) d))"

definition phase :: "nat \<Rightarrow> pid list \<Rightarrow> reducer \<Rightarrow> state \<Rightarrow> bool" where
  "phase n A action s =
     (case status (heap s ! Suc n) of
        Pending \<Rightarrow>
          reactions (heap s ! Suc n) = [Reg (Some (OnAllProms action n)) None (n + 2 + 2 * length A)] \<and>
          status (heap s ! n) = Pending \<and>
          status (heap s ! (n + 2 + 2 * length A)) = Pending \<and>
          probes s = [] \<and>
          (promisesCompleted s < length A \<or> A = []) \<and>
          filter is_final (jobs s) = []
      | Fulfilled x \<Rightarrow>
          x = Arr (results s) \<and> promisesCompleted s = length A \<and> A \<noteq> [] \<and>
          reactions (heap s ! Suc n) = [] \<and>
          (if filter is_final (jobs s) = []
           then (case reduce action (results s) of
                   (Normal r, calls) \<Rightarrow>
                     status (heap s ! n) = Fulfilled r \<and>
                     status (heap s ! (n + 2 + 2 * length A)) = Fulfilled Undefined \<and>
                     probes s = Fired # calls @ [ResCalled r]
                 | (Throw e, calls) \<Rightarrow>
                     status (heap s ! n) = Pending \<and>
                     status (heap s ! (n + 2 + 2 * length A)) = Rejected e \<and>
                     probes s = Fired # calls)
           else filter is_final (jobs s) = [final_job n A action s] \<and>
                status (heap s ! n) = Pending \<and>
                status (heap s ! (n + 2 + 2 * length A)) = Pending \<and>
                probes s = [Fired])
      | Rejected e \<Rightarrow> False)"

definition shape :: "nat \<Rightarrow> pid list \<Rightarrow> state \<Rightarrow> bool" where
  "shape n A s \<longleftrightarrow>
     length (heap s) = n + 3 + 2 * length A \<and>
     (\<forall>p \<in> set A. p < n) \<and>
     (\<forall>p. n \<le> p \<and> p < n + 3 + 2 * length A \<and> p \<noteq> Suc n \<longrightarrow> reactions (heap s ! p) = []) \<and>
     (\<forall>p<n. status (heap s ! p) = Pending \<longrightarrow>
        (\<forall>r \<in> set (reactions (heap s ! p)). good_reg n A r) \<and>
        (\<forall>k v. regs_obs k v (reactions (heap s ! p)) = replicate (count_list A p) (mk k v)))"

definition jobs_ok :: "nat \<Rightarrow> pid list \<Rightarrow> reducer \<Rightarrow> state \<Rightarrow> bool" where
  "jobs_ok n A action s \<longleftrightarrow>
     (\<forall>j \<in> set (jobs s). if is_final j then j = final_job n A action s else plain_job n A j)"

definition counted :: "pid list \<Rightarrow> state \<Rightarrow> bool" where
  "counted A s \<longleftrightarrow> promisesCompleted s + length (qobs s) + pend A s = length A"

definition chain_inv :: "nat \<Rightarrow> pid list \<Rightarrow> reducer \<Rightarrow> state \<Rightarrow> bool" where
  "chain_inv n A action s \<longleftrightarrow>
     shape n A s \<and> jobs_ok n A action s \<and> counted A s \<and> phase n A action s"

fun successes :: "outcome list \<Rightarrow> val list" where
  "successes [] = []"
| "successes (Ok v # os) = v # successes os"
| "successes (Fail e # os) = successes os"

text \<open>The two task callbacks: push (or not), count, and finalize when the count is reached.\<close>

definition bump :: "nat \<Rightarrow> pid \<Rightarrow> val list \<Rightarrow> state \<Rightarrow> state" where
  "bump m q extra s =
     (let s2 = s\<lparr>results := results s @ extra, promisesCompleted := promisesCompleted s + 1\<rparr>
      in if promisesCompleted s2 = m
         then resolve q (Arr (results s2)) (s2\<lparr>probes := probes s2 @ [Fired]\<rparr>) else s2)"

definition fresh :: promise where
  "fresh = \<lparr>status = Pending, reactions = []\<rparr>"

fun obs_of :: "pstate \<Rightarrow> outcome list" where
  "obs_of Pending = []"
| "obs_of (Fulfilled v) = [Ok v]"
| "obs_of (Rejected e) = [Fail e]"

definition at_call :: "pid list \<Rightarrow> state \<Rightarrow> outcome list" where
  "at_call A s = concat (map (\<lambda>p. obs_of (status (heap s ! p))) A)"

definition idle :: "nat \<Rightarrow> state \<Rightarrow> bool" where
  "idle n s \<longleftrightarrow> length (heap s) = n \<and> (\<forall>p<n. reactions (heap s ! p) = []) \<and> jobs s = [] \<and> probes s = []"

definition reg_inv :: "nat \<Rightarrow> pid list \<Rightarrow> pid list \<Rightarrow> state \<Rightarrow> bool" where
  "reg_inv n A B s \<longleftrightarrow>
     length (heap s) = n + 2 + 2 * length B \<and>
     (\<forall>q. n \<le> q \<and> q < n + 2 + 2 * length B \<longrightarrow> heap s ! q = fresh) \<and>
     (\<forall>p<n. status (heap s ! p) = Pending \<longrightarrow>
        (\<forall>r \<in> set (reactions (heap s ! p)). good_reg n A r) \<and>
        (\<forall>k v. regs_obs k v (reactions (heap s ! p)) = replicate (count_list B p) (mk k v))) \<and>
     (\<forall>j \<in> set (jobs s). plain_job n A j \<and> \<not> is_final j) \<and>
     qobs s = at_call B s \<and>
     results s = [] \<and> promisesCompleted s = 0 \<and> probes s = []"

fun is_fulfilled :: "pstate \<Rightarrow> bool" where
  "is_fulfilled (Fulfilled v) = True"
| "is_fulfilled st = False"

definition ful :: "pid list \<Rightarrow> state \<Rightarrow> nat" where
  "ful A s = length (filter (\<lambda>p. is_fulfilled (status (heap s ! p))) A)"

definition chain_inv2 :: "nat \<Rightarrow> pid list \<Rightarrow> reducer \<Rightarrow> state \<Rightarrow> bool" where
  "chain_inv2 n A action s \<longleftrightarrow>
     chain_inv n A action s \<and> length (results s) + length (successes (qobs s)) = ful A s"

fun kind_of :: "outcome \<Rightarrow> kind" where
  "kind_of (Ok v) = Fulfill"
| "kind_of (Fail e) = Reject"

fun val_of :: "outcome \<Rightarrow> val" where
  "val_of (Ok v) = v"
| "val_of (Fail e) = e"

fun settlements :: "nat \<Rightarrow> pid list \<Rightarrow> event list \<Rightarrow> (pid \<times> outcome) list" where
  "settlements n dn [] = []"
| "settlements n dn (Tick # evs) = settlements n dn evs"
| "settlements n dn (Settle p out # evs) =
     (if p < n \<and> p \<notin> set dn then (p, out) # settlements n (p # dn) evs
      else settlements n dn evs)"

definition observed :: "pid list \<Rightarrow> (pid \<times> outcome) list \<Rightarrow> outcome list" where
  "observed A sts = concat (map (\<lambda>(p, out). replicate (count_list A p) out) sts)"

definition settled_tasks :: "nat \<Rightarrow> state \<Rightarrow> pid list" where
  "settled_tasks n s = filter (\<lambda>p. status (heap s ! p) \<noteq> Pending) [0..<n]"

text \<open>
  The reducers of the scenarios, \<^verbatim>\<open>(a, b) => a + b\<close>, \<^verbatim>\<open>(a, b) => a - b\<close> and
  \<^verbatim>\<open>(a, b) => a * b\<close>, on numbers.
\<close>

fun num_add :: "val \<Rightarrow> val \<Rightarrow> val" where
  "num_add (Num a) (Num b) = Num (a + b)"
| "num_add a b = Undefined"

fun num_sub :: "val \<Rightarrow> val \<Rightarrow> val" where
  "num_sub (Num a) (Num b) = Num (a - b)"
| "num_sub a b = Undefined"

fun num_mul :: "val \<Rightarrow> val \<Rightarrow> val" where
  "num_mul (Num a) (Num b) = Num (a * b)"
| "num_mul a b = Undefined"

text \<open>What the log says: the calls of the reducer and the calls of \<^verbatim>\<open>res\<close>.\<close>

fun reducer_calls :: "probe list \<Rightarrow> (val \<times> val) list" where
  "reducer_calls [] = []"
| "reducer_calls (Invoked a b i # ps) = (a, b) # reducer_calls ps"
| "reducer_calls (x # ps) = reducer_calls ps"

fun res_calls :: "probe list \<Rightarrow> val list" where
  "res_calls [] = []"
| "res_calls (ResCalled r # ps) = r # res_calls ps"
| "res_calls (x # ps) = res_calls ps"

text \<open>
  The two wrappers, \<^verbatim>\<open>processAllPromises\<close> and \<^verbatim>\<open>getFastestPromise\<close>, have the same
  shape: the returned promise at position \<open>n\<close>, the promise of the library at \<open>Suc n\<close>,
  one derived promise for each element of the array, and the two promises derived by
  \<^verbatim>\<open>then\<close> and \<^verbatim>\<open>catch\<close> on the promise of the library. The jobs of the library have a
  target below \<open>n + 2 + N\<close>, those of the wrapper one from there on.
\<close>

fun target :: "job \<Rightarrow> pid" where
  "target (Job k h d v) = d"

fun lib_handler :: "pid \<Rightarrow> handler \<Rightarrow> bool" where
  "lib_handler q (CallResolve p) = (p = q)"
| "lib_handler q (CallReject p) = (p = q)"
| "lib_handler q (ResolveElement i p) = (p = q)"
| "lib_handler q h = False"

definition lib_job :: "nat \<Rightarrow> nat \<Rightarrow> job \<Rightarrow> bool" where
  "lib_job n N j =
     (\<exists>k h d v. j = Job k (Some h) d v \<and> lib_handler (Suc n) h \<and> n + 2 \<le> d \<and> d < n + 2 + N)"

definition lib_reg :: "nat \<Rightarrow> nat \<Rightarrow> reg \<Rightarrow> bool" where
  "lib_reg n N r =
     (\<exists>h1 h2 d. r = Reg (Some h1) (Some h2) d \<and> lib_handler (Suc n) h1 \<and> lib_handler (Suc n) h2 \<and>
        n + 2 \<le> d \<and> d < n + 2 + N)"

definition wq :: "nat \<Rightarrow> nat \<Rightarrow> state \<Rightarrow> job list" where
  "wq n N s = filter (\<lambda>j. n + 2 + N \<le> target j) (jobs s)"

definition wregs :: "nat \<Rightarrow> nat \<Rightarrow> reg list" where
  "wregs n N = [Reg (Some (CallResolve n)) None (n + 2 + N), Reg None (Some (CallReject n)) (n + 3 + N)]"

definition wphase :: "nat \<Rightarrow> nat \<Rightarrow> state \<Rightarrow> bool" where
  "wphase n N s =
     (case status (heap s ! Suc n) of
        Pending \<Rightarrow>
          reactions (heap s ! Suc n) = wregs n N \<and> status (heap s ! n) = Pending \<and> wq n N s = []
      | Fulfilled v \<Rightarrow>
          reactions (heap s ! Suc n) = [] \<and>
          (wq n N s = map (job_of Fulfill v) (wregs n N) \<and> status (heap s ! n) = Pending \<or>
           wq n N s = tl (map (job_of Fulfill v) (wregs n N)) \<and> status (heap s ! n) = Fulfilled v \<or>
           wq n N s = [] \<and> status (heap s ! n) = Fulfilled v)
      | Rejected e \<Rightarrow>
          reactions (heap s ! Suc n) = [] \<and>
          (wq n N s = map (job_of Reject e) (wregs n N) \<and> status (heap s ! n) = Pending \<or>
           wq n N s = tl (map (job_of Reject e) (wregs n N)) \<and> status (heap s ! n) = Pending \<or>
           wq n N s = [] \<and> status (heap s ! n) = Rejected e))"

definition wrap_inv :: "nat \<Rightarrow> nat \<Rightarrow> state \<Rightarrow> bool" where
  "wrap_inv n N s \<longleftrightarrow>
     length (heap s) = n + 4 + N \<and>
     (\<forall>p. n \<le> p \<and> p < n + 4 + N \<and> p \<noteq> Suc n \<longrightarrow> reactions (heap s ! p) = []) \<and>
     (\<forall>j \<in> set (jobs s). target j < n + 2 + N \<longrightarrow> lib_job n N j) \<and>
     (\<forall>p<n. status (heap s ! p) = Pending \<longrightarrow> (\<forall>r \<in> set (reactions (heap s ! p)). lib_reg n N r)) \<and>
     wphase n N s"

text \<open>
  For \<^verbatim>\<open>Promise.race\<close>: the outcomes that the queue holds for the promise of the library,
  the status that a list of outcomes gives a promise, and the registrations of the
  elements that are the same task.
\<close>

definition idxs :: "pid list \<Rightarrow> nat \<Rightarrow> pid \<Rightarrow> nat list" where
  "idxs A m p = filter (\<lambda>i. A ! i = p) [0..<m]"

fun race_obs :: "nat \<Rightarrow> job \<Rightarrow> outcome option" where
  "race_obs n (Job Fulfill (Some (CallResolve q)) d v) = (if q = Suc n then Some (Ok v) else None)"
| "race_obs n (Job Reject (Some (CallReject q)) d v) = (if q = Suc n then Some (Fail v) else None)"
| "race_obs n j = None"

definition race_q :: "nat \<Rightarrow> state \<Rightarrow> outcome list" where
  "race_q n s = List.map_filter (race_obs n) (jobs s)"

fun first_settled :: "outcome list \<Rightarrow> pstate" where
  "first_settled [] = Pending"
| "first_settled (out # outs) = settled (kind_of out) (val_of out)"

definition winner :: "nat \<Rightarrow> state \<Rightarrow> outcome list \<Rightarrow> pstate" where
  "winner n s rest =
     (case status (heap s ! Suc n) of
        Pending \<Rightarrow> first_settled (race_q n s @ rest)
      | Fulfilled v \<Rightarrow> Fulfilled v
      | Rejected e \<Rightarrow> Rejected e)"

definition race_reg :: "nat \<Rightarrow> nat \<Rightarrow> reg" where
  "race_reg n i = Reg (Some (CallResolve (Suc n))) (Some (CallReject (Suc n))) (n + 2 + i)"

definition race_job :: "nat \<Rightarrow> job \<Rightarrow> bool" where
  "race_job n j =
     (\<exists>d v. j = Job Fulfill (Some (CallResolve (Suc n))) d v \<or> j = Job Reject (Some (CallReject (Suc n))) d v)"

definition race_inv :: "nat \<Rightarrow> pid list \<Rightarrow> state \<Rightarrow> bool" where
  "race_inv n A s \<longleftrightarrow>
     wrap_inv n (length A) s \<and> (\<forall>q \<in> set A. q < n) \<and>
     (\<forall>p<n. status (heap s ! p) = Pending \<longrightarrow>
        reactions (heap s ! p) = map (race_reg n) (idxs A (length A) p)) \<and>
     (\<forall>j \<in> set (jobs s). target j < n + 2 + length A \<longrightarrow> race_job n j)"

definition race_loop_inv :: "nat \<Rightarrow> pid list \<Rightarrow> pid list \<Rightarrow> state \<Rightarrow> bool" where
  "race_loop_inv n A B s \<longleftrightarrow>
     length (heap s) = n + 2 + length B \<and>
     (\<forall>q. n \<le> q \<and> q < n + 2 + length B \<longrightarrow> heap s ! q = fresh) \<and>
     (\<forall>p<n. status (heap s ! p) = Pending \<longrightarrow>
        reactions (heap s ! p) = map (race_reg n) (idxs A (length B) p)) \<and>
     (\<forall>j \<in> set (jobs s). race_job n j \<and> lib_job n (length A) j) \<and>
     race_q n s = at_call B s"

text \<open>
  For \<^verbatim>\<open>Promise.all\<close>: the jobs of the library in the queue, the elements whose value
  has been stored, and the first failure among the outcomes that the queue holds.
\<close>

text \<open>The part of the queue that belongs to the library.\<close>

definition lq :: "nat \<Rightarrow> nat \<Rightarrow> state \<Rightarrow> job list" where
  "lq n N s = filter (\<lambda>j. target j < n + 2 + N) (jobs s)"

definition queued :: "nat \<Rightarrow> nat \<Rightarrow> state \<Rightarrow> nat \<Rightarrow> bool" where
  "queued n N s i \<longleftrightarrow> n + 2 + i \<in> set (map target (lq n N s))"

text \<open>Element \<open>i\<close> has been stored: its task is fulfilled and its job has run.\<close>

definition fdone :: "nat \<Rightarrow> pid list \<Rightarrow> state \<Rightarrow> nat \<Rightarrow> bool" where
  "fdone n A s i \<longleftrightarrow> is_fulfilled (status (heap s ! (A ! i))) \<and> \<not> queued n (length A) s i"

definition all_reg :: "nat \<Rightarrow> nat \<Rightarrow> reg" where
  "all_reg n i = Reg (Some (ResolveElement i (Suc n))) (Some (CallReject (Suc n))) (n + 2 + i)"

definition all_job :: "nat \<Rightarrow> pid list \<Rightarrow> state \<Rightarrow> job \<Rightarrow> bool" where
  "all_job n A s j =
     (\<exists>i v. i < length A \<and>
        (j = Job Fulfill (Some (ResolveElement i (Suc n))) (n + 2 + i) v \<and>
           status (heap s ! (A ! i)) = Fulfilled v \<or>
         j = Job Reject (Some (CallReject (Suc n))) (n + 2 + i) v \<and>
           status (heap s ! (A ! i)) = Rejected v))"

definition all_phase :: "nat \<Rightarrow> state \<Rightarrow> bool" where
  "all_phase n s =
     (case status (heap s ! Suc n) of
        Pending \<Rightarrow> 0 < remainingElementsCount s
      | Fulfilled x \<Rightarrow> x = Arr (all_values s) \<and> remainingElementsCount s = 0
      | Rejected e \<Rightarrow> True)"

definition all_inv :: "nat \<Rightarrow> pid list \<Rightarrow> state \<Rightarrow> bool" where
  "all_inv n A s \<longleftrightarrow>
     wrap_inv n (length A) s \<and> (\<forall>q \<in> set A. q < n) \<and>
     length (all_values s) = length A \<and>
     (\<forall>p<n. status (heap s ! p) = Pending \<longrightarrow>
        reactions (heap s ! p) = map (all_reg n) (idxs A (length A) p)) \<and>
     (\<forall>j \<in> set (lq n (length A) s). all_job n A s j) \<and>
     distinct (map target (lq n (length A) s)) \<and>
     (\<forall>i < length A. fdone n A s i \<longrightarrow> status (heap s ! (A ! i)) = Fulfilled (all_values s ! i)) \<and>
     remainingElementsCount s + card {i. i < length A \<and> fdone n A s i} = length A \<and>
     all_phase n s"

fun all_obs :: "nat \<Rightarrow> job \<Rightarrow> outcome option" where
  "all_obs n (Job Fulfill (Some (ResolveElement i q)) d v) = (if q = Suc n then Some (Ok v) else None)"
| "all_obs n (Job Reject (Some (CallReject q)) d v) = (if q = Suc n then Some (Fail v) else None)"
| "all_obs n j = None"

definition all_q :: "nat \<Rightarrow> state \<Rightarrow> outcome list" where
  "all_q n s = List.map_filter (all_obs n) (jobs s)"

fun first_failure :: "outcome list \<Rightarrow> val option" where
  "first_failure [] = None"
| "first_failure (Ok v # outs) = first_failure outs"
| "first_failure (Fail e # outs) = Some e"

definition verdict :: "nat \<Rightarrow> state \<Rightarrow> outcome list \<Rightarrow> val option" where
  "verdict n s rest =
     (case status (heap s ! Suc n) of
        Rejected e \<Rightarrow> Some e
      | _ \<Rightarrow> first_failure (all_q n s @ rest))"

definition all_loop_inv :: "nat \<Rightarrow> pid list \<Rightarrow> pid list \<Rightarrow> state \<Rightarrow> bool" where
  "all_loop_inv n A B s \<longleftrightarrow>
     length (heap s) = n + 2 + length B \<and>
     (\<forall>q. n \<le> q \<and> q < n + 2 + length B \<longrightarrow> heap s ! q = fresh) \<and>
     (\<forall>p<n. status (heap s ! p) = Pending \<longrightarrow>
        reactions (heap s ! p) = map (all_reg n) (idxs A (length B) p)) \<and>
     (\<forall>j \<in> set (jobs s). target j < n + 2 + length B \<and> all_job n A s j) \<and>
     distinct (map target (jobs s)) \<and>
     (\<forall>i < length B. status (heap s ! (A ! i)) \<noteq> Pending \<longrightarrow> n + 2 + i \<in> set (map target (jobs s))) \<and>
     all_q n s = at_call B s \<and>
     all_values s = replicate (length B) Undefined \<and>
     remainingElementsCount s = Suc (length B)"

fun fulfilled_value :: "pstate \<Rightarrow> val" where
  "fulfilled_value (Fulfilled v) = v"
| "fulfilled_value st = Undefined"







section \<open>The invariant of chainPromises\<close>

subsection \<open>Runtime algebra\<close>

lemma resolving_fields [simp]:
  "results (resolving k p v s) = results s"
  "promisesCompleted (resolving k p v s) = promisesCompleted s"
  "all_values (resolving k p v s) = all_values s"
  "remainingElementsCount (resolving k p v s) = remainingElementsCount s"
  "probes (resolving k p v s) = probes s"
  "length (heap (resolving k p v s)) = length (heap s)"
  by (simp_all add: resolving_def settle_promise_def)

lemma heap_resolving:
  "heap (resolving k p v s) ! q =
     (if q = p \<and> p < length (heap s) \<and> status (heap s ! p) = Pending
      then \<lparr>status = settled k v, reactions = []\<rparr> else heap s ! q)"
  by (simp add: resolving_def settle_promise_def)

lemma jobs_resolving:
  "jobs (resolving k p v s) =
     jobs s @ (if p < length (heap s) \<and> status (heap s ! p) = Pending
               then map (job_of k v) (reactions (heap s ! p)) else [])"
  by (simp add: resolving_def settle_promise_def)

lemma run_job_None: "run_job (Job k None d v) s = resolving k d v s"
  by (cases k) simp_all

subsection \<open>Observation\<close>

lemma shape_frame:
  assumes "shape n A s" and "length (heap s') = length (heap s)"
    and "\<And>p. p < n \<Longrightarrow> heap s' ! p = heap s ! p"
    and "\<And>p. n \<le> p \<Longrightarrow> p < n + 3 + 2 * length A \<Longrightarrow> p \<noteq> Suc n \<Longrightarrow> reactions (heap s' ! p) = []"
  shows "shape n A s'"
  using assms unfolding shape_def by simp

lemma pend_frame:
  assumes "\<forall>p \<in> set A. p < n" and "\<And>p. p < n \<Longrightarrow> heap s' ! p = heap s ! p"
  shows "pend A s' = pend A s"
proof -
  have "filter (\<lambda>p. status (heap s' ! p) = Pending) A = filter (\<lambda>p. status (heap s ! p) = Pending) A"
    using assms by (intro filter_cong) auto
  then show ?thesis by (simp add: pend_def)
qed

subsection \<open>Settle step\<close>

lemma phase_cong:
  assumes "heap s' ! Suc n = heap s ! Suc n"
    and "status (heap s' ! n) = status (heap s ! n)"
    and "status (heap s' ! (n + 2 + 2 * length A)) = status (heap s ! (n + 2 + 2 * length A))"
    and "probes s' = probes s" and "promisesCompleted s' = promisesCompleted s"
    and "results s' = results s"
    and "filter is_final (jobs s') = filter is_final (jobs s)"
  shows "phase n A action s' = phase n A action s"
  unfolding phase_def final_job_def assms by (rule refl)

lemma good_reg_job: "good_reg n A r \<Longrightarrow> plain_job n A (job_of k v r) \<and> \<not> is_final (job_of k v r)"
  by (cases k) (auto simp: good_reg_def plain_job_def)

lemma pend_settle:
  assumes "st p = Pending" "st' p \<noteq> Pending" "\<And>q. q \<noteq> p \<Longrightarrow> st' q = st q"
  shows "length (filter (\<lambda>q. st' q = Pending) A) + count_list A p = length (filter (\<lambda>q. st q = Pending) A)"
  using assms by (induction A) auto

lemma settled_not_Pending [simp]: "settled k v \<noteq> Pending"
  by (cases k) simp_all

lemma qobs_append: "List.map_filter f (xs @ ys) = List.map_filter f xs @ List.map_filter f ys"
  by (simp add: List.map_filter_def)

lemma filter_final_regs:
  "\<forall>r \<in> set rs. good_reg n A r \<Longrightarrow> filter is_final (map (job_of k v) rs) = []"
  by (induction rs) (auto dest: good_reg_job)

lemma chain_inv_settle:
  assumes inv: "chain_inv n A action s" and p: "p < n"
  shows "chain_inv n A action (resolving k p v s)"
proof (cases "status (heap s ! p) = Pending")
  case False
  then show ?thesis using inv by (simp add: resolving_def)
next
  case True
  let ?s = "resolving k p v s"
  from inv have sh: "shape n A s" and jo: "jobs_ok n A action s" and co: "counted A s"
    and ph: "phase n A action s" by (simp_all add: chain_inv_def)
  from sh have len: "length (heap s) = n + 3 + 2 * length A" by (simp add: shape_def)
  with p have plen: "p < length (heap s)" by simp
  from sh True p have regs: "\<forall>r \<in> set (reactions (heap s ! p)). good_reg n A r"
    and obs: "\<And>k v. regs_obs k v (reactions (heap s ! p)) = replicate (count_list A p) (mk k v)"
    by (auto simp: shape_def)
  have jobs: "jobs ?s = jobs s @ map (job_of k v) (reactions (heap s ! p))"
    using True plen by (simp add: jobs_resolving)
  have heap: "\<And>q. q \<noteq> p \<Longrightarrow> heap ?s ! q = heap s ! q"
    by (simp add: heap_resolving)
  have heap_p: "status (heap ?s ! p) = settled k v"
    using True plen by (simp add: heap_resolving)
  have 1: "shape n A ?s"
    using sh p heap_p unfolding shape_def by (auto simp: heap_resolving)
  have 3: "jobs_ok n A action ?s"
    using jo regs by (auto simp: jobs jobs_ok_def final_job_def dest: good_reg_job)
  have "pend A ?s + count_list A p = pend A s"
    unfolding pend_def
    by (rule pend_settle [where st = "\<lambda>q. status (heap s ! q)"]) (simp_all add: True heap_p heap)
  moreover have "qobs ?s = qobs s @ replicate (count_list A p) (mk k v)"
    using obs [of k v] by (simp add: qobs_def jobs qobs_append regs_obs_def)
  ultimately have 5: "counted A ?s"
    using co by (simp add: counted_def)
  have fin: "filter is_final (jobs ?s) = filter is_final (jobs s)"
    using regs by (simp add: jobs filter_final_regs)
  have "phase n A action ?s = phase n A action s"
    using p by (intro phase_cong) (simp_all add: heap fin)
  with ph have 6: "phase n A action ?s" by simp
  from 1 3 5 6 show ?thesis unfolding chain_inv_def by blast
qed

subsection \<open>Tick\<close>

lemma heap_resolving_whole:
  "heap (resolving k p v s) =
     (if p < length (heap s) \<and> status (heap s ! p) = Pending
      then (heap s)[p := \<lparr>status = settled k v, reactions = []\<rparr>] else heap s)"
  by (simp add: resolving_def settle_promise_def)

lemma qobs_Cons: "qobs (s\<lparr>jobs := j # js\<rparr>) = (case task_obs j of None \<Rightarrow> [] | Some ob \<Rightarrow> [ob]) @ qobs (s\<lparr>jobs := js\<rparr>)"
  by (simp add: qobs_def List.map_filter_def split: option.splits)

lemma final_job_cong: "results s' = results s \<Longrightarrow> final_job n A action s' = final_job n A action s"
  by (simp add: final_job_def)

text \<open>A job without handler: only the derived promise changes.\<close>

lemma tick_pass:
  assumes inv: "chain_inv n A action s" and j: "jobs s = Job k None d v # js"
    and d: "n + 2 \<le> d" "d < n + 2 + 2 * length A"
  defines "s' \<equiv> run_job (Job k None d v) (s\<lparr>jobs := js\<rparr>)"
  shows "chain_inv n A action s'" and "\<And>p. p < n \<Longrightarrow> heap s' ! p = heap s ! p"
    and "results s' = results s" and "qobs s' = qobs s" and "promisesCompleted s' = promisesCompleted s"
proof -
  from inv have sh: "shape n A s" and jo: "jobs_ok n A action s" and co: "counted A s"
    and ph: "phase n A action s" by (simp_all add: chain_inv_def)
  have s': "s' = resolving k d v (s\<lparr>jobs := js\<rparr>)" by (simp add: s'_def run_job_None)
  from sh d have rd: "reactions (heap s ! d) = []" by (simp add: shape_def)
  have jobs: "jobs s' = js" by (simp add: s' jobs_resolving rd)
  have heap: "\<And>q. q \<noteq> d \<Longrightarrow> heap s' ! q = heap s ! q" by (simp add: s' heap_resolving)
  have heap_d: "reactions (heap s' ! d) = []" by (simp add: s' heap_resolving rd)
  show tasks: "\<And>p. p < n \<Longrightarrow> heap s' ! p = heap s ! p" using d by (simp add: heap)
  show res: "results s' = results s" by (simp add: s')
  show pc: "promisesCompleted s' = promisesCompleted s" by (simp add: s')
  show q: "qobs s' = qobs s" by (simp add: qobs_def jobs j List.map_filter_def)
  have 1: "shape n A s'"
  proof (rule shape_frame [OF sh])
    show "length (heap s') = length (heap s)" by (simp add: s')
    show "\<And>p. p < n \<Longrightarrow> heap s' ! p = heap s ! p" by (rule tasks)
    show "reactions (heap s' ! p) = []" if "n \<le> p" "p < n + 3 + 2 * length A" "p \<noteq> Suc n" for p
      using that sh heap_d by (cases "p = d") (simp_all add: heap shape_def)
  qed
  have 3: "jobs_ok n A action s'"
    using jo by (simp add: jobs_ok_def jobs j final_job_cong [OF res])
  have "pend A s' = pend A s"
    using sh tasks by (intro pend_frame [where n = n]) (simp_all add: shape_def)
  with co have 5: "counted A s'" by (simp add: counted_def q pc)
  have pr: "probes s' = probes s" by (simp add: s')
  have "phase n A action s' = phase n A action s"
    using d by (intro phase_cong) (simp_all add: heap jobs j res pc pr)
  with ph have 6: "phase n A action s'" by simp
  from 1 3 5 6 show "chain_inv n A action s'" unfolding chain_inv_def by blast
qed

lemma run_job_task:
  "run_job (Job Fulfill (Some (OnTaskValue m q)) d v) s = resolve d Undefined (bump m q [v] s)"
  "run_job (Job Reject (Some (OnTaskError m q)) d v) s = resolve d Undefined (bump m q [] s)"
  by (simp_all add: bump_def Let_def)

lemma tick_task:
  assumes inv: "chain_inv n A action s" and j: "jobs s = j # js"
    and ob: "task_obs j = Some ob" and nf: "\<not> is_final j"
    and d: "n + 2 \<le> d" "d < n + 2 + 2 * length A"
    and run: "run_job j (s\<lparr>jobs := js\<rparr>) =
       resolve d Undefined (bump (length A) (Suc n) (successes [ob]) (s\<lparr>jobs := js\<rparr>))"
  defines "s' \<equiv> run_job j (s\<lparr>jobs := js\<rparr>)"
  shows "chain_inv n A action s'" and "\<And>p. p < n \<Longrightarrow> heap s' ! p = heap s ! p"
    and "results s' @ successes (qobs s') = results s @ successes (qobs s)"
proof -
  let ?N = "length A" and ?P = "Suc n" and ?D = "n + 2 + 2 * length A"
  let ?pc = "promisesCompleted s"
  from inv have sh: "shape n A s" and jo: "jobs_ok n A action s" and co: "counted A s"
    and ph: "phase n A action s" by (simp_all add: chain_inv_def)
  from sh have len: "length (heap s) = n + 3 + 2 * ?N" by (simp add: shape_def)
  from sh d have rd: "reactions (heap s ! d) = []" by (simp add: shape_def)
  have qs: "qobs s = ob # qobs (s\<lparr>jobs := js\<rparr>)"
    using ob by (simp add: qobs_def j List.map_filter_def)
  have qjs: "qobs (s\<lparr>jobs := js\<rparr>) = List.map_filter task_obs js" by (simp add: qobs_def)
  from co qs have cnt: "Suc ?pc + length (List.map_filter task_obs js) + pend A s = ?N"
    by (simp add: counted_def qjs)
  then have lt: "?pc < ?N" by simp
  with ph have P: "status (heap s ! ?P) = Pending"
    by (auto simp: phase_def split: pstate.splits)
  with ph have rP: "reactions (heap s ! ?P) = [Reg (Some (OnAllProms action n)) None ?D]"
    and R: "status (heap s ! n) = Pending" and D: "status (heap s ! ?D) = Pending"
    and pr: "probes s = []" and fin: "filter is_final (jobs s) = []"
    by (simp_all add: phase_def)
  from fin nf have finjs: "filter is_final js = []" by (simp add: j)
  with jo have plain: "\<forall>j' \<in> set js. plain_job n A j' \<and> \<not> is_final j'"
    by (auto simp: jobs_ok_def j filter_empty_conv)
  have "chain_inv n A action s' \<and> (\<forall>p<n. heap s' ! p = heap s ! p) \<and>
    results s' @ successes (qobs s') = results s @ successes (qobs s)"
  proof (cases "Suc ?pc = ?N")
    case True
    let ?fj = "Job Fulfill (Some (OnAllProms action n)) ?D (Arr (results s @ successes [ob]))"
    have s': "s' = resolve d Undefined (resolve ?P (Arr (results s @ successes [ob]))
        (s\<lparr>jobs := js, results := results s @ successes [ob], promisesCompleted := Suc ?pc,
           probes := [Fired]\<rparr>))"
      using True by (simp add: s'_def run bump_def Let_def pr)
    have res: "results s' = results s @ successes [ob]" by (simp add: s')
    have pc: "promisesCompleted s' = ?N" using True by (simp add: s')
    have prb: "probes s' = [Fired]" by (simp add: s')
    have hl: "length (heap s') = length (heap s)" by (simp add: s')
    have heap: "\<And>q. q \<noteq> d \<Longrightarrow> q \<noteq> ?P \<Longrightarrow> heap s' ! q = heap s ! q"
      by (simp add: s' heap_resolving)
    have heap_P: "heap s' ! ?P = \<lparr>status = Fulfilled (Arr (results s @ successes [ob])), reactions = []\<rparr>"
      using d P len by (simp add: s' heap_resolving)
    have heap_d: "reactions (heap s' ! d) = []"
      using d rd by (simp add: s' heap_resolving)
    have jobs: "jobs s' = js @ [?fj]"
      using d P len rP rd by (simp add: s' jobs_resolving heap_resolving)
    have tasks: "\<And>p. p < n \<Longrightarrow> heap s' ! p = heap s ! p" using d by (simp add: heap)
    have q': "qobs s' = List.map_filter task_obs js"
      by (simp add: qobs_def jobs qobs_append List.map_filter_def)
    have fold: "results s' @ successes (qobs s') = results s @ successes (qobs s)"
      by (cases ob) (simp_all add: res q' qs qjs)
    have 1: "shape n A s'"
    proof (rule shape_frame [OF sh hl tasks])
      show "reactions (heap s' ! p) = []" if "n \<le> p" "p < n + 3 + 2 * length A" "p \<noteq> Suc n" for p
        using that sh heap_d by (cases "p = d") (simp_all add: heap shape_def)
    qed
    have 3: "jobs_ok n A action s'"
      using plain by (auto simp: jobs_ok_def jobs final_job_def res)
    have "pend A s' = pend A s"
      using sh tasks by (intro pend_frame [where n = n]) (simp_all add: shape_def)
    with cnt True have 5: "counted A s'" by (simp add: counted_def q' pc)
    have finj: "filter is_final (jobs s') = [final_job n A action s']"
      by (simp add: jobs finjs final_job_def res)
    have "A \<noteq> []" using True by auto
    then have 6: "phase n A action s'"
      using d R D by (simp add: phase_def heap_P pc finj prb res heap)
    from 1 3 5 6 have "chain_inv n A action s'" unfolding chain_inv_def by blast
    with tasks fold show ?thesis by blast
  next
    case False
    have s': "s' = resolve d Undefined
        (s\<lparr>jobs := js, results := results s @ successes [ob], promisesCompleted := Suc ?pc\<rparr>)"
      using False by (simp add: s'_def run bump_def Let_def)
    have res: "results s' = results s @ successes [ob]" by (simp add: s')
    have pc: "promisesCompleted s' = Suc ?pc" by (simp add: s')
    have prb: "probes s' = probes s" by (simp add: s')
    have hl: "length (heap s') = length (heap s)" by (simp add: s')
    have heap: "\<And>q. q \<noteq> d \<Longrightarrow> heap s' ! q = heap s ! q"
      by (simp add: s' heap_resolving)
    have heap_d: "reactions (heap s' ! d) = []"
      using d rd by (simp add: s' heap_resolving)
    have jobs: "jobs s' = js"
      using rd by (simp add: s' jobs_resolving)
    have tasks: "\<And>p. p < n \<Longrightarrow> heap s' ! p = heap s ! p" using d by (simp add: heap)
    have q': "qobs s' = List.map_filter task_obs js"
      by (simp add: qobs_def jobs)
    have fold: "results s' @ successes (qobs s') = results s @ successes (qobs s)"
      by (cases ob) (simp_all add: res q' qs qjs)
    have 1: "shape n A s'"
    proof (rule shape_frame [OF sh hl tasks])
      show "reactions (heap s' ! p) = []" if "n \<le> p" "p < n + 3 + 2 * length A" "p \<noteq> Suc n" for p
        using that sh heap_d by (cases "p = d") (simp_all add: heap shape_def)
    qed
    have 3: "jobs_ok n A action s'"
      using plain by (auto simp: jobs_ok_def jobs)
    have "pend A s' = pend A s"
      using sh tasks by (intro pend_frame [where n = n]) (simp_all add: shape_def)
    with cnt have 5: "counted A s'" by (simp add: counted_def q' pc)
    have 6: "phase n A action s'"
      using d R D P rP False lt pr by (simp add: phase_def heap pc prb jobs finjs)
    from 1 3 5 6 have "chain_inv n A action s'" unfolding chain_inv_def by blast
    with tasks fold show ?thesis by blast
  qed
  then show "chain_inv n A action s'" and "\<And>p. p < n \<Longrightarrow> heap s' ! p = heap s ! p"
    and "results s' @ successes (qobs s') = results s @ successes (qobs s)"
    by blast+
qed

text \<open>The callback of \<^verbatim>\<open>allProms.then\<close>: the fold, and the call of \<^verbatim>\<open>res\<close>.\<close>

lemma tick_final:
  assumes inv: "chain_inv n A action s" and j: "jobs s = final_job n A action s # js"
  defines "s' \<equiv> run_job (final_job n A action s) (s\<lparr>jobs := js\<rparr>)"
  shows "chain_inv n A action s'" and "\<And>p. p < n \<Longrightarrow> heap s' ! p = heap s ! p"
    and "results s' @ successes (qobs s') = results s @ successes (qobs s)"
proof -
  let ?N = "length A" and ?P = "Suc n" and ?D = "n + 2 + 2 * length A"
  from inv have sh: "shape n A s" and jo: "jobs_ok n A action s" and co: "counted A s"
    and ph: "phase n A action s" by (simp_all add: chain_inv_def)
  from sh have len: "length (heap s) = n + 3 + 2 * ?N" by (simp add: shape_def)
  from sh have rn: "reactions (heap s ! n) = []" and rD: "reactions (heap s ! ?D) = []"
    by (simp_all add: shape_def)
  have fin0: "filter is_final (jobs s) \<noteq> []" by (simp add: j final_job_def)
  with ph obtain x where P: "status (heap s ! ?P) = Fulfilled x"
    by (cases "status (heap s ! ?P)") (auto simp: phase_def)
  with ph fin0 have pc: "promisesCompleted s = ?N" and ne: "A \<noteq> []"
    and rP: "reactions (heap s ! ?P) = []" and x: "x = Arr (results s)"
    and fin: "filter is_final (jobs s) = [final_job n A action s]"
    and R: "status (heap s ! n) = Pending" and D: "status (heap s ! ?D) = Pending"
    and pr: "probes s = [Fired]"
    by (simp_all add: phase_def)
  from fin have finjs: "filter is_final js = []" by (simp add: j final_job_def)
  have q: "qobs (s\<lparr>jobs := js\<rparr>) = qobs s"
    by (simp add: qobs_def j final_job_def List.map_filter_def)
  obtain c calls where red: "reduce action (results s) = (c, calls)" by (cases "reduce action (results s)")
  have props: "results s' = results s \<and> promisesCompleted s' = promisesCompleted s \<and>
      jobs s' = js \<and> length (heap s') = length (heap s) \<and>
      (\<forall>q. q \<noteq> n \<and> q \<noteq> ?D \<longrightarrow> heap s' ! q = heap s ! q) \<and>
      reactions (heap s' ! n) = [] \<and> reactions (heap s' ! ?D) = [] \<and>
      (case c of
         Normal r \<Rightarrow> status (heap s' ! n) = Fulfilled r \<and> status (heap s' ! ?D) = Fulfilled Undefined \<and>
            probes s' = Fired # calls @ [ResCalled r]
       | Throw e \<Rightarrow> status (heap s' ! n) = Pending \<and> status (heap s' ! ?D) = Rejected e \<and>
            probes s' = Fired # calls)"
  proof (cases c)
    case (Normal r)
    have "s' = resolve ?D Undefined (resolve n r (s\<lparr>jobs := js, probes := Fired # calls @ [ResCalled r]\<rparr>))"
      by (simp add: s'_def final_job_def red Normal pr)
    then show ?thesis using len R D rn rD Normal
      by (simp add: heap_resolving jobs_resolving)
  next
    case (Throw e)
    have "s' = reject ?D e (s\<lparr>jobs := js, probes := Fired # calls\<rparr>)"
      by (simp add: s'_def final_job_def red Throw pr)
    then show ?thesis using len R D rn rD Throw
      by (simp add: heap_resolving jobs_resolving)
  qed
  then have res: "results s' = results s" and pc': "promisesCompleted s' = promisesCompleted s"
    and jobs: "jobs s' = js" and hl: "length (heap s') = length (heap s)"
    and heap: "\<And>q. q \<noteq> n \<Longrightarrow> q \<noteq> ?D \<Longrightarrow> heap s' ! q = heap s ! q"
    and rn': "reactions (heap s' ! n) = []" and rD': "reactions (heap s' ! ?D) = []"
    by simp_all
  show tasks: "\<And>p. p < n \<Longrightarrow> heap s' ! p = heap s ! p" by (simp add: heap)
  have q': "qobs s' = qobs s" using q by (simp add: qobs_def jobs)
  show "results s' @ successes (qobs s') = results s @ successes (qobs s)"
    by (simp add: res q')
  have 1: "shape n A s'"
  proof (rule shape_frame [OF sh hl tasks])
    show "reactions (heap s' ! p) = []" if "n \<le> p" "p < n + 3 + 2 * length A" "p \<noteq> Suc n" for p
      using that sh rn' rD' by (cases "p = n \<or> p = ?D") (auto simp: heap shape_def)
  qed
  have 3: "jobs_ok n A action s'"
    using jo by (simp add: jobs_ok_def jobs j final_job_cong [OF res])
  have "pend A s' = pend A s"
    using sh tasks by (intro pend_frame [where n = n]) (simp_all add: shape_def)
  with co have 5: "counted A s'" by (simp add: counted_def q' pc')
  have 6: "phase n A action s'"
    using props P pc ne rP x by (cases c) (simp_all add: phase_def heap finjs red)
  from 1 3 5 6 show "chain_inv n A action s'" unfolding chain_inv_def by blast
qed

lemma chain_inv_tick:
  assumes inv: "chain_inv n A action s"
  shows "chain_inv n A action (tick s) \<and> (\<forall>p<n. heap (tick s) ! p = heap s ! p) \<and>
    results (tick s) @ successes (qobs (tick s)) = results s @ successes (qobs s)"
proof (cases "jobs s")
  case Nil
  then show ?thesis using inv by (simp add: tick_def)
next
  case (Cons j js)
  then have t: "tick s = run_job j (s\<lparr>jobs := js\<rparr>)" by (simp add: tick_def)
  from inv Cons have ok: "if is_final j then j = final_job n A action s else plain_job n A j"
    by (simp add: chain_inv_def jobs_ok_def)
  show ?thesis
  proof (cases "is_final j")
    case True
    with ok have "j = final_job n A action s" by simp
    with tick_final [OF inv, of js] Cons show ?thesis by (simp add: t)
  next
    case False
    with ok obtain k h d v where j: "j = Job k h d v" and d: "n + 2 \<le> d" "d < n + 2 + 2 * length A"
      and h: "h = None \<or> (k = Fulfill \<and> h = Some (OnTaskValue (length A) (Suc n))) \<or>
         (k = Reject \<and> h = Some (OnTaskError (length A) (Suc n)))"
      by (auto simp: plain_job_def)
    from h consider (pass) "h = None" | (val) "k = Fulfill" "h = Some (OnTaskValue (length A) (Suc n))"
      | (err) "k = Reject" "h = Some (OnTaskError (length A) (Suc n))" by blast
    then show ?thesis
    proof cases
      case pass
      with tick_pass [OF inv _ d, of k v js] Cons j show ?thesis by (simp add: t)
    next
      case val
      have r: "run_job j (s\<lparr>jobs := js\<rparr>) =
          resolve d Undefined (bump (length A) (Suc n) (successes [Ok v]) (s\<lparr>jobs := js\<rparr>))"
        unfolding j val by (simp only: run_job_task successes.simps)
      have ob: "task_obs j = Some (Ok v)" by (simp add: j val)
      from tick_task [OF inv Cons ob False d r] show ?thesis unfolding t by blast
    next
      case err
      have r: "run_job j (s\<lparr>jobs := js\<rparr>) =
          resolve d Undefined (bump (length A) (Suc n) (successes [Fail v]) (s\<lparr>jobs := js\<rparr>))"
        unfolding j err by (simp only: run_job_task successes.simps)
      have ob: "task_obs j = Some (Fail v)" by (simp add: j err)
      from tick_task [OF inv Cons ob False d r] show ?thesis unfolding t by blast
    qed
  qed
qed

subsection \<open>Establishing the invariant\<close>

lemma then_promise_fst: "fst (then_promise p f r s) = length (heap s)"
  by (simp add: then_promise_def new_promise_def)

lemma then_promise_snd:
  assumes "p < length (heap s)"
  shows "snd (then_promise p f r s) =
    (case status (heap s ! p) of
       Pending \<Rightarrow> s\<lparr>heap := (heap s @ [fresh])[p := (heap s ! p)\<lparr>reactions := reactions (heap s ! p) @ [Reg f r (length (heap s))]\<rparr>]\<rparr>
     | Fulfilled v \<Rightarrow> s\<lparr>heap := heap s @ [fresh], jobs := jobs s @ [Job Fulfill f (length (heap s)) v]\<rparr>
     | Rejected e \<Rightarrow> s\<lparr>heap := heap s @ [fresh], jobs := jobs s @ [Job Reject r (length (heap s)) e]\<rparr>)"
  using assms by (simp add: then_promise_def new_promise_def nth_append fresh_def split: pstate.splits)

lemma chain_each_eq:
  assumes "p < length (heap s)"
  shows "chain_each m q p s =
    (let l = length (heap s) in
     case status (heap s ! p) of
       Pending \<Rightarrow> s\<lparr>heap := (heap s @ [fresh, fresh])[p := (heap s ! p)\<lparr>reactions := reactions (heap s ! p) @
           [Reg (Some (OnTaskValue m q)) None l, Reg None (Some (OnTaskError m q)) (Suc l)]\<rparr>]\<rparr>
     | Fulfilled v \<Rightarrow> s\<lparr>heap := heap s @ [fresh, fresh],
         jobs := jobs s @ [Job Fulfill (Some (OnTaskValue m q)) l v, Job Fulfill None (Suc l) v]\<rparr>
     | Rejected e \<Rightarrow> s\<lparr>heap := heap s @ [fresh, fresh],
         jobs := jobs s @ [Job Reject None l e, Job Reject (Some (OnTaskError m q)) (Suc l) e]\<rparr>)"
  using assms
  by (simp add: chain_each_def catch_promise_def then_promise_def new_promise_def nth_append fresh_def
      list_update_append Let_def split: pstate.splits)

lemma regs_obs_append: "regs_obs k v (rs @ rs') = regs_obs k v rs @ regs_obs k v rs'"
  by (simp add: regs_obs_def qobs_append)

lemma regs_obs_pair:
  "regs_obs k v [Reg (Some (OnTaskValue m q)) None d, Reg None (Some (OnTaskError m q)) d'] = [mk k v]"
  by (cases k) (simp_all add: regs_obs_def List.map_filter_def)

lemma at_call_cong:
  assumes "\<forall>p \<in> set B. status (heap s' ! p) = status (heap s ! p)"
  shows "at_call B s' = at_call B s"
  using assms by (induction B) (simp_all add: at_call_def)

lemma at_call_snoc: "at_call (B @ [p]) s = at_call B s @ obs_of (status (heap s ! p))"
  by (simp add: at_call_def)

lemma reg_inv_chain_each:
  assumes inv: "reg_inv n A B s" and p: "p < n" and B: "length B < length A" and Bn: "\<forall>q \<in> set B. q < n"
  defines "s' \<equiv> chain_each (length A) (Suc n) p s"
  shows "reg_inv n A (B @ [p]) s' \<and> (\<forall>q<n. status (heap s' ! q) = status (heap s ! q))"
proof -
  let ?l = "n + 2 + 2 * length B"
  from inv have len: "length (heap s) = ?l" by (simp add: reg_inv_def)
  with p have pl: "p < length (heap s)" by simp
  have g1: "good_reg n A (Reg (Some (OnTaskValue (length A) (Suc n))) None ?l)"
    and g2: "good_reg n A (Reg None (Some (OnTaskError (length A) (Suc n))) (Suc ?l))"
    using B by (auto simp: good_reg_def)
  have pj: "\<And>k h v. h = None \<or> (k = Fulfill \<and> h = Some (OnTaskValue (length A) (Suc n))) \<or>
         (k = Reject \<and> h = Some (OnTaskError (length A) (Suc n))) \<Longrightarrow>
       (plain_job n A (Job k h ?l v) \<and> \<not> is_final (Job k h ?l v)) \<and>
       (plain_job n A (Job k h (Suc ?l) v) \<and> \<not> is_final (Job k h (Suc ?l) v))"
    using B by (auto simp: plain_job_def)
  show ?thesis
  proof (cases "status (heap s ! p)")
    case Pending
    have s': "s' = s\<lparr>heap := (heap s @ [fresh, fresh])[p := (heap s ! p)\<lparr>reactions := reactions (heap s ! p) @
           [Reg (Some (OnTaskValue (length A) (Suc n))) None ?l,
            Reg None (Some (OnTaskError (length A) (Suc n))) (Suc ?l)]\<rparr>]\<rparr>"
      using Pending by (simp add: s'_def chain_each_eq [OF pl] len Let_def)
    have hp: "heap s' ! p = (heap s ! p)\<lparr>reactions := reactions (heap s ! p) @
           [Reg (Some (OnTaskValue (length A) (Suc n))) None ?l,
            Reg None (Some (OnTaskError (length A) (Suc n))) (Suc ?l)]\<rparr>"
      using pl by (simp add: s')
    have hq: "\<And>q. q \<noteq> p \<Longrightarrow> q < ?l \<Longrightarrow> heap s' ! q = heap s ! q"
      using len by (simp add: s' nth_append)
    have hnew: "\<And>q. ?l \<le> q \<Longrightarrow> q < ?l + 2 \<Longrightarrow> heap s' ! q = fresh"
      using len p by (auto simp: s' nth_append nth_Cons' )
    have st: "\<forall>q<n. status (heap s' ! q) = status (heap s ! q)"
    proof (intro allI impI)
      fix q assume "q < n"
      then show "status (heap s' ! q) = status (heap s ! q)"
        by (cases "q = p") (simp_all add: hp hq)
    qed
    have 1: "length (heap s') = n + 2 + 2 * length (B @ [p])" using len by (simp add: s')
    have 2: "\<forall>q. n \<le> q \<and> q < n + 2 + 2 * length (B @ [p]) \<longrightarrow> heap s' ! q = fresh"
    proof (intro allI impI)
      fix q assume q: "n \<le> q \<and> q < n + 2 + 2 * length (B @ [p])"
      show "heap s' ! q = fresh"
      proof (cases "q < ?l")
        case True
        with q p inv show ?thesis by (simp add: hq reg_inv_def)
      next
        case False
        with q show ?thesis by (intro hnew) simp_all
      qed
    qed
    have 3: "\<forall>q<n. status (heap s' ! q) = Pending \<longrightarrow>
        (\<forall>r \<in> set (reactions (heap s' ! q)). good_reg n A r) \<and>
        (\<forall>k v. regs_obs k v (reactions (heap s' ! q)) = replicate (count_list (B @ [p]) q) (mk k v))"
    proof (intro allI impI)
      fix q assume q: "q < n" and "status (heap s' ! q) = Pending"
      with st have qp: "status (heap s ! q) = Pending" by simp
      with inv q have old: "\<forall>r \<in> set (reactions (heap s ! q)). good_reg n A r"
        "\<And>k v. regs_obs k v (reactions (heap s ! q)) = replicate (count_list B q) (mk k v)"
        by (simp_all add: reg_inv_def)
      show "(\<forall>r \<in> set (reactions (heap s' ! q)). good_reg n A r) \<and>
        (\<forall>k v. regs_obs k v (reactions (heap s' ! q)) = replicate (count_list (B @ [p]) q) (mk k v))"
      proof (cases "q = p")
        case True
        then show ?thesis using old g1 g2
          by (simp add: hp regs_obs_append regs_obs_pair replicate_append_same)
      next
        case False
        then show ?thesis using old q by (simp add: hq)
      qed
    qed
    have 4: "\<forall>j \<in> set (jobs s'). plain_job n A j \<and> \<not> is_final j"
      using inv by (simp add: s' reg_inv_def)
    have "at_call B s' = at_call B s" using Bn st by (intro at_call_cong) auto
    then have "at_call (B @ [p]) s' = at_call B s"
      using st Pending p by (simp add: at_call_snoc)
    with inv have 5: "qobs s' = at_call (B @ [p]) s'" by (simp add: reg_inv_def) (simp add: qobs_def s')
    have 6: "results s' = [] \<and> promisesCompleted s' = 0 \<and> probes s' = []"
      using inv by (simp add: s' reg_inv_def)
    from 1 2 3 4 5 6 st show ?thesis unfolding reg_inv_def by blast
  next
    case (Fulfilled v)
    have s': "s' = s\<lparr>heap := heap s @ [fresh, fresh],
         jobs := jobs s @ [Job Fulfill (Some (OnTaskValue (length A) (Suc n))) ?l v, Job Fulfill None (Suc ?l) v]\<rparr>"
      using Fulfilled by (simp add: s'_def chain_each_eq [OF pl] len Let_def)
    have hq: "\<And>q. q < ?l \<Longrightarrow> heap s' ! q = heap s ! q"
      using len by (simp add: s' nth_append)
    have hnew: "\<And>q. ?l \<le> q \<Longrightarrow> q < ?l + 2 \<Longrightarrow> heap s' ! q = fresh"
      using len p by (auto simp: s' nth_append nth_Cons')
    have st: "\<forall>q<n. status (heap s' ! q) = status (heap s ! q)" by (simp add: hq)
    have 1: "length (heap s') = n + 2 + 2 * length (B @ [p])" using len by (simp add: s')
    have 2: "\<forall>q. n \<le> q \<and> q < n + 2 + 2 * length (B @ [p]) \<longrightarrow> heap s' ! q = fresh"
    proof (intro allI impI)
      fix q assume q: "n \<le> q \<and> q < n + 2 + 2 * length (B @ [p])"
      show "heap s' ! q = fresh"
      proof (cases "q < ?l")
        case True
        with q p inv show ?thesis by (simp add: hq reg_inv_def)
      next
        case False
        with q show ?thesis by (intro hnew) simp_all
      qed
    qed
    have 3: "\<forall>q<n. status (heap s' ! q) = Pending \<longrightarrow>
        (\<forall>r \<in> set (reactions (heap s' ! q)). good_reg n A r) \<and>
        (\<forall>k v. regs_obs k v (reactions (heap s' ! q)) = replicate (count_list (B @ [p]) q) (mk k v))"
      using inv Fulfilled by (auto simp: hq reg_inv_def)
    have 4: "\<forall>j \<in> set (jobs s'). plain_job n A j \<and> \<not> is_final j"
      using inv pj [where k = Fulfill and h = "Some (OnTaskValue (length A) (Suc n))" and v = v]
        pj [where k = Fulfill and h = None and v = v]
      by (simp add: s' reg_inv_def)
    have "at_call B s' = at_call B s" using Bn st by (intro at_call_cong) auto
    then have "at_call (B @ [p]) s' = at_call B s @ [Ok v]"
      using st Fulfilled p by (simp add: at_call_snoc)
    with inv have 5: "qobs s' = at_call (B @ [p]) s'"
      by (simp add: reg_inv_def) (simp add: qobs_def s' List.map_filter_def)
    have 6: "results s' = [] \<and> promisesCompleted s' = 0 \<and> probes s' = []"
      using inv by (simp add: s' reg_inv_def)
    from 1 2 3 4 5 6 st show ?thesis unfolding reg_inv_def by blast
  next
    case (Rejected e)
    have s': "s' = s\<lparr>heap := heap s @ [fresh, fresh],
         jobs := jobs s @ [Job Reject None ?l e, Job Reject (Some (OnTaskError (length A) (Suc n))) (Suc ?l) e]\<rparr>"
      using Rejected by (simp add: s'_def chain_each_eq [OF pl] len Let_def)
    have hq: "\<And>q. q < ?l \<Longrightarrow> heap s' ! q = heap s ! q"
      using len by (simp add: s' nth_append)
    have hnew: "\<And>q. ?l \<le> q \<Longrightarrow> q < ?l + 2 \<Longrightarrow> heap s' ! q = fresh"
      using len p by (auto simp: s' nth_append nth_Cons')
    have st: "\<forall>q<n. status (heap s' ! q) = status (heap s ! q)" by (simp add: hq)
    have 1: "length (heap s') = n + 2 + 2 * length (B @ [p])" using len by (simp add: s')
    have 2: "\<forall>q. n \<le> q \<and> q < n + 2 + 2 * length (B @ [p]) \<longrightarrow> heap s' ! q = fresh"
    proof (intro allI impI)
      fix q assume q: "n \<le> q \<and> q < n + 2 + 2 * length (B @ [p])"
      show "heap s' ! q = fresh"
      proof (cases "q < ?l")
        case True
        with q p inv show ?thesis by (simp add: hq reg_inv_def)
      next
        case False
        with q show ?thesis by (intro hnew) simp_all
      qed
    qed
    have 3: "\<forall>q<n. status (heap s' ! q) = Pending \<longrightarrow>
        (\<forall>r \<in> set (reactions (heap s' ! q)). good_reg n A r) \<and>
        (\<forall>k v. regs_obs k v (reactions (heap s' ! q)) = replicate (count_list (B @ [p]) q) (mk k v))"
      using inv Rejected by (auto simp: hq reg_inv_def)
    have 4: "\<forall>j \<in> set (jobs s'). plain_job n A j \<and> \<not> is_final j"
      using inv pj [where k = Reject and h = "Some (OnTaskError (length A) (Suc n))" and v = e]
        pj [where k = Reject and h = None and v = e]
      by (simp add: s' reg_inv_def)
    have "at_call B s' = at_call B s" using Bn st by (intro at_call_cong) auto
    then have "at_call (B @ [p]) s' = at_call B s @ [Fail e]"
      using st Rejected p by (simp add: at_call_snoc)
    with inv have 5: "qobs s' = at_call (B @ [p]) s'"
      by (simp add: reg_inv_def) (simp add: qobs_def s' List.map_filter_def)
    have 6: "results s' = [] \<and> promisesCompleted s' = 0 \<and> probes s' = []"
      using inv by (simp add: s' reg_inv_def)
    from 1 2 3 4 5 6 st show ?thesis unfolding reg_inv_def by blast
  qed
qed

lemma reg_inv_fold:
  assumes "reg_inv n A B s" and "A = B @ C" and "\<forall>q \<in> set A. q < n"
  shows "reg_inv n A A (fold (chain_each (length A) (Suc n)) C s) \<and>
    (\<forall>q<n. status (heap (fold (chain_each (length A) (Suc n)) C s) ! q) = status (heap s ! q))"
  using assms
proof (induction C arbitrary: B s)
  case Nil
  then show ?case by simp
next
  case (Cons p C)
  from Cons.prems have p: "p < n" and B: "length B < length A" and Bn: "\<forall>q \<in> set B. q < n"
    by simp_all
  from reg_inv_chain_each [OF Cons.prems(1) p B Bn]
  have 1: "reg_inv n A (B @ [p]) (chain_each (length A) (Suc n) p s)"
    and 2: "\<forall>q<n. status (heap (chain_each (length A) (Suc n) p s) ! q) = status (heap s ! q)"
    by simp_all
  from Cons.prems have "A = (B @ [p]) @ C" by simp
  from Cons.IH [OF 1 this Cons.prems(3)] 2 show ?case by simp
qed

lemma length_obs_of: "length (obs_of st) = (if st = Pending then 0 else 1)"
  by (cases st) simp_all

lemma at_call_pend: "length (at_call A s) + pend A s = length A"
  by (induction A) (simp_all add: at_call_def pend_def length_obs_of)

lemma chainPromises_inv:
  fixes action :: reducer
  assumes idle: "idle n s0" and A: "\<forall>q \<in> set A. q < n"
  defines "s1 \<equiv> snd (chainPromises A action s0)"
  shows "fst (chainPromises A action s0) = n" and "chain_inv n A action s1"
    and "qobs s1 = at_call A s0" and "results s1 = []"
    and "\<forall>q<n. status (heap s1 ! q) = status (heap s0 ! q)"
proof -
  let ?N = "length A" and ?D = "n + 2 + 2 * length A"
  let ?fin = "Reg (Some (OnAllProms action n)) None ?D"
  define s2 where "s2 = s0\<lparr>results := [], promisesCompleted := 0, heap := heap s0 @ [fresh, fresh]\<rparr>"
  define s3 where "s3 = fold (chain_each ?N (Suc n)) A s2"
  from idle have len0: "length (heap s0) = n" by (simp add: idle_def)
  have cp: "chainPromises A action s0 = (n, snd (then_promise (Suc n) (Some (OnAllProms action n)) None s3))"
    using len0 by (simp add: chainPromises_def new_promise_def s3_def s2_def fresh_def split_def)
  show "fst (chainPromises A action s0) = n" by (simp add: cp)
  have h2: "\<And>q. q < n \<Longrightarrow> heap s2 ! q = heap s0 ! q" using len0 by (simp add: s2_def nth_append)
  have "reg_inv n A [] s2"
    unfolding reg_inv_def using idle
    by (auto simp: h2 idle_def regs_obs_def List.map_filter_def qobs_def at_call_def)
       (auto simp: s2_def nth_append nth_Cons' idle_def)
  from reg_inv_fold [OF this _ A, of A]
  have r3: "reg_inv n A A s3" and st3: "\<forall>q<n. status (heap s3 ! q) = status (heap s2 ! q)"
    by (simp_all add: s3_def)
  from r3 have len3: "length (heap s3) = ?D" and P3: "heap s3 ! Suc n = fresh"
    by (simp_all add: reg_inv_def)
  have s1: "s1 = s3\<lparr>heap := (heap s3 @ [fresh])[Suc n := fresh\<lparr>reactions := [?fin]\<rparr>]\<rparr>"
    using len3 P3 by (simp add: s1_def cp then_promise_snd) (simp add: fresh_def)
  have hq: "\<And>q. q \<noteq> Suc n \<Longrightarrow> q < ?D \<Longrightarrow> heap s1 ! q = heap s3 ! q"
    using len3 by (simp add: s1 nth_append)
  have hP: "heap s1 ! Suc n = fresh\<lparr>reactions := [?fin]\<rparr>" using len3 by (simp add: s1)
  have hD: "heap s1 ! ?D = fresh" using len3 by (simp add: s1 nth_append)
  have fr: "\<And>q. n \<le> q \<Longrightarrow> q < ?D \<Longrightarrow> heap s3 ! q = fresh"
    using r3 by (simp add: reg_inv_def)
  show st: "\<forall>q<n. status (heap s1 ! q) = status (heap s0 ! q)"
    using st3 by (simp add: hq h2)
  show q1: "qobs s1 = at_call A s0"
  proof -
    have "qobs s1 = qobs s3" by (simp add: qobs_def s1)
    also have "\<dots> = at_call A s3" using r3 by (simp add: reg_inv_def)
    also have "\<dots> = at_call A s0" using A st3 by (intro at_call_cong) (simp add: h2)
    finally show ?thesis .
  qed
  show "results s1 = []" using r3 by (simp add: s1 reg_inv_def)
  have 1: "shape n A s1"
    unfolding shape_def
  proof (intro conjI allI impI)
    show "length (heap s1) = n + 3 + 2 * ?N" using len3 by (simp add: s1)
    show "\<forall>p \<in> set A. p < n" by (rule A)
    show "reactions (heap s1 ! p) = []" if "n \<le> p \<and> p < n + 3 + 2 * ?N \<and> p \<noteq> Suc n" for p
      using that hD fr [of p] by (cases "p = ?D") (simp_all add: hq fresh_def)
    show "\<forall>r \<in> set (reactions (heap s1 ! p)). good_reg n A r"
      if "p < n" "status (heap s1 ! p) = Pending" for p
      using that r3 by (simp add: hq reg_inv_def)
    show "regs_obs k v (reactions (heap s1 ! p)) = replicate (count_list A p) (mk k v)"
      if "p < n" "status (heap s1 ! p) = Pending" for p k v
      using that r3 by (simp add: hq reg_inv_def)
  qed
  have js: "jobs s1 = jobs s3" by (simp add: s1)
  have pl: "\<forall>j \<in> set (jobs s3). plain_job n A j \<and> \<not> is_final j"
    using r3 by (simp add: reg_inv_def)
  then have 3: "jobs_ok n A action s1" by (simp add: jobs_ok_def js)
  have "pend A s1 = pend A s0"
    unfolding pend_def using A st by (intro arg_cong [where f = length] filter_cong) auto
  moreover have "promisesCompleted s1 = 0" using r3 by (simp add: s1 reg_inv_def)
  ultimately have 5: "counted A s1"
    using at_call_pend [of A s0] by (simp add: counted_def q1)
  have fin: "filter is_final (jobs s1) = []" using pl by (simp add: js filter_empty_conv)
  have pc1: "promisesCompleted s1 = 0" and pr1: "probes s1 = []"
    using r3 by (simp_all add: s1 reg_inv_def)
  have Rn: "status (heap s1 ! n) = Pending" using fr [of n] by (simp add: hq fresh_def)
  have 6: "phase n A action s1"
    using hD by (simp add: phase_def hP Rn pc1 pr1 fin fresh_def)
  from 1 3 5 6 show "chain_inv n A action s1" unfolding chain_inv_def by blast
qed

subsection \<open>Counting the fulfilled tasks\<close>

lemma settle_task_eq: "settle_task p out s = resolving (kind_of out) p (val_of out) s"
  by (cases out) simp_all

lemma mk_kind_val [simp]: "mk (kind_of out) (val_of out) = out"
  by (cases out) simp_all

lemma successes_append [simp]: "successes (xs @ ys) = successes xs @ successes ys"
  by (induction xs rule: successes.induct) simp_all

lemma successes_replicate:
  "successes (replicate c out) = (case out of Ok v \<Rightarrow> replicate c v | Fail e \<Rightarrow> [])"
  by (induction c) (simp_all split: outcome.splits)

lemma ful_settle:
  assumes "st p = Pending" "\<And>q. q \<noteq> p \<Longrightarrow> st' q = st q"
  shows "length (filter (\<lambda>q. is_fulfilled (st' q)) A) =
    length (filter (\<lambda>q. is_fulfilled (st q)) A) + (if is_fulfilled (st' p) then count_list A p else 0)"
  using assms by (induction A) auto

lemma ful_frame:
  assumes "\<forall>p \<in> set A. p < n" and "\<And>p. p < n \<Longrightarrow> heap s' ! p = heap s ! p"
  shows "ful A s' = ful A s"
proof -
  have "filter (\<lambda>p. is_fulfilled (status (heap s' ! p))) A = filter (\<lambda>p. is_fulfilled (status (heap s ! p))) A"
    using assms by (intro filter_cong) auto
  then show ?thesis by (simp add: ful_def)
qed

text \<open>What the settlement of a pending task adds to the queue.\<close>

lemma qobs_settle:
  assumes inv: "chain_inv n A action s" and p: "p < n" and pe: "status (heap s ! p) = Pending"
  shows "qobs (resolving k p v s) = qobs s @ replicate (count_list A p) (mk k v)"
proof -
  from inv have sh: "shape n A s" by (simp add: chain_inv_def)
  then have "length (heap s) = n + 3 + 2 * length A" by (simp add: shape_def)
  with p have plen: "p < length (heap s)" by simp
  from sh pe p have obs: "regs_obs k v (reactions (heap s ! p)) = replicate (count_list A p) (mk k v)"
    by (auto simp: shape_def)
  have "jobs (resolving k p v s) = jobs s @ map (job_of k v) (reactions (heap s ! p))"
    using pe plen by (simp add: jobs_resolving)
  with obs show ?thesis by (simp add: qobs_def qobs_append regs_obs_def)
qed

lemma chain_inv2_settle:
  assumes inv: "chain_inv2 n A action s" and p: "p < n"
  shows "chain_inv2 n A action (resolving k p v s)"
proof (cases "status (heap s ! p) = Pending")
  case False
  then show ?thesis using inv by (simp add: resolving_def)
next
  case True
  let ?s = "resolving k p v s"
  from inv have ci: "chain_inv n A action s"
    and fu: "length (results s) + length (successes (qobs s)) = ful A s"
    by (simp_all add: chain_inv2_def)
  from ci have "length (heap s) = n + 3 + 2 * length A" by (simp add: chain_inv_def shape_def)
  with p have plen: "p < length (heap s)" by simp
  have q: "qobs ?s = qobs s @ replicate (count_list A p) (mk k v)"
    by (rule qobs_settle [OF ci p True])
  have hp: "status (heap ?s ! p) = settled k v" using True plen by (simp add: heap_resolving)
  have "ful A ?s = ful A s + (if is_fulfilled (settled k v) then count_list A p else 0)"
    unfolding ful_def hp [symmetric]
    by (rule ful_settle [where st = "\<lambda>q. status (heap s ! q)"]) (simp_all add: True heap_resolving)
  moreover have "length (successes (replicate (count_list A p) (mk k v))) =
      (if is_fulfilled (settled k v) then count_list A p else 0)"
    by (cases k) (simp_all add: successes_replicate)
  ultimately have "length (results ?s) + length (successes (qobs ?s)) = ful A ?s"
    using fu by (simp add: q)
  with chain_inv_settle [OF ci p] show ?thesis by (simp add: chain_inv2_def)
qed

lemma chain_inv2_tick:
  assumes inv: "chain_inv2 n A action s"
  shows "chain_inv2 n A action (tick s)"
proof -
  from inv have ci: "chain_inv n A action s"
    and fu: "length (results s) + length (successes (qobs s)) = ful A s"
    by (simp_all add: chain_inv2_def)
  from chain_inv_tick [OF ci] have ci': "chain_inv n A action (tick s)"
    and tasks: "\<And>p. p < n \<Longrightarrow> heap (tick s) ! p = heap s ! p"
    and eq: "results (tick s) @ successes (qobs (tick s)) = results s @ successes (qobs s)"
    by simp_all
  from ci have A: "\<forall>p \<in> set A. p < n" by (simp add: chain_inv_def shape_def)
  have "ful A (tick s) = ful A s" using A tasks by (rule ful_frame)
  moreover from eq have "length (results (tick s) @ successes (qobs (tick s))) =
      length (results s @ successes (qobs s))" by simp
  ultimately show ?thesis using ci' fu by (simp add: chain_inv2_def)
qed

subsection \<open>A settled promise never changes\<close>

lemma stays_resolving:
  "status (heap s ! q) \<noteq> Pending \<Longrightarrow> heap (resolving k p v s) ! q = heap s ! q"
  by (auto simp: heap_resolving)

lemma stays_call:
  "status (heap s ! q) \<noteq> Pending \<Longrightarrow> heap (snd (call h v s)) ! q = heap s ! q"
  by (cases h) (auto simp: Let_def heap_resolving split: val.splits completion.splits prod.splits)

lemma stays_run_job:
  assumes "status (heap s ! q) \<noteq> Pending"
  shows "heap (run_job j s) ! q = heap s ! q"
proof (cases j)
  case (Job k h d v)
  show ?thesis
  proof (cases h)
    case None
    with Job assms show ?thesis by (simp add: run_job_None stays_resolving)
  next
    case (Some f)
    obtain c s1 where c: "call f v s = (c, s1)" by (cases "call f v s")
    with stays_call [OF assms, of f v] have "heap s1 ! q = heap s ! q" by simp
    with assms c Job Some show ?thesis
      by (cases c) (simp_all add: stays_resolving)
  qed
qed

lemma stays_tick: "status (heap s ! q) \<noteq> Pending \<Longrightarrow> heap (tick s) ! q = heap s ! q"
  using stays_run_job [of "s\<lparr>jobs := tl (jobs s)\<rparr>" q "hd (jobs s)"]
  by (cases "jobs s") (simp_all add: tick_def)

lemma stays_step: "status (heap s ! q) \<noteq> Pending \<Longrightarrow> heap (step n e s) ! q = heap s ! q"
  by (cases e) (simp_all add: stays_tick settle_task_eq stays_resolving)

lemma stays_run: "status (heap s ! q) \<noteq> Pending \<Longrightarrow> heap (run n evs s) ! q = heap s ! q"
  by (induction evs arbitrary: s) (simp_all add: run_def stays_step)

lemma stays_drain: "status (heap s ! q) \<noteq> Pending \<Longrightarrow> heap (drain s) ! q = heap s ! q"
proof (induction s rule: drain.induct)
  case (1 s)
  show ?case
  proof (cases "jobs s = []")
    case True
    then show ?thesis by (simp add: drain_empty)
  next
    case False
    with 1 have "heap (drain (tick s)) ! q = heap (tick s) ! q" by (simp add: stays_tick)
    with False 1 show ?thesis by (subst drain.simps) (simp add: stays_tick)
  qed
qed

subsection \<open>Before the call\<close>

lemma idle_world: "idle n (world n)"
  by (simp add: idle_def world_def)

lemma idle_step: "idle n s \<Longrightarrow> idle n (step n e s)"
proof (cases e)
  case (Settle p out)
  assume "idle n s"
  then show ?thesis using Settle
    by (auto simp: idle_def settle_task_eq heap_resolving jobs_resolving)
next
  case Tick
  assume "idle n s"
  then show ?thesis using Tick by (simp add: idle_def tick_def)
qed

lemma idle_run: "idle n s \<Longrightarrow> idle n (run n evs s)"
  by (induction evs arbitrary: s) (simp_all add: run_def idle_step)

subsection \<open>The invariant along a schedule\<close>

lemma chain_inv2_step: "chain_inv2 n A action s \<Longrightarrow> chain_inv2 n A action (step n e s)"
  by (cases e) (simp_all add: chain_inv2_tick chain_inv2_settle settle_task_eq)

lemma chain_inv2_run: "chain_inv2 n A action s \<Longrightarrow> chain_inv2 n A action (run n evs s)"
  by (induction evs arbitrary: s) (simp_all add: run_def chain_inv2_step)

lemma chain_inv2_drain: "chain_inv2 n A action s \<Longrightarrow> chain_inv2 n A action (drain s)"
proof (induction s rule: drain.induct)
  case (1 s)
  show ?case
  proof (cases "jobs s = []")
    case True
    with 1 show ?thesis by (simp add: drain_empty)
  next
    case False
    with 1 show ?thesis by (subst drain.simps) (simp add: chain_inv2_tick)
  qed
qed

lemma successes_at_call: "length (successes (at_call A s)) = ful A s"
proof (induction A)
  case Nil
  then show ?case by (simp add: at_call_def ful_def)
next
  case (Cons p A)
  then show ?case by (cases "status (heap s ! p)") (simp_all add: at_call_def ful_def)
qed

lemma chainPromises_inv2:
  fixes action :: reducer
  assumes idle: "idle n s0" and A: "\<forall>q \<in> set A. q < n"
  shows "chain_inv2 n A action (snd (chainPromises A action s0))"
proof -
  let ?s1 = "snd (chainPromises A action s0)"
  note ci = chainPromises_inv [OF idle A, of action]
  have "ful A ?s1 = ful A s0"
    unfolding ful_def using A ci(5) by (intro arg_cong [where f = length] filter_cong) auto
  with ci(2,3,4) successes_at_call [of A s0] show ?thesis by (simp add: chain_inv2_def)
qed

subsection \<open>The order of observation\<close>

lemma observed_Cons: "observed A ((p, out) # sts) = replicate (count_list A p) out @ observed A sts"
  by (simp add: observed_def)

lemma observed_Nil [simp]: "observed A [] = []"
  by (simp add: observed_def)

lemma run_Cons: "run n (e # evs) s = run n evs (step n e s)"
  by (simp add: run_def)

lemma run_results:
  assumes "chain_inv n A action s"
    and "\<forall>p<n. (p \<in> set dn \<longleftrightarrow> status (heap s ! p) \<noteq> Pending)"
  shows "results (run n evs s) @ successes (qobs (run n evs s)) =
    results s @ successes (qobs s) @ successes (observed A (settlements n dn evs))"
  using assms
proof (induction evs arbitrary: s dn)
  case Nil
  then show ?case by (simp add: run_def)
next
  case (Cons e evs)
  show ?case
  proof (cases e)
    case Tick
    from chain_inv_tick [OF Cons.prems(1)]
    have ci: "chain_inv n A action (tick s)" and tasks: "\<forall>p<n. heap (tick s) ! p = heap s ! p"
      and eq: "results (tick s) @ successes (qobs (tick s)) = results s @ successes (qobs s)"
      by simp_all
    from Cons.prems(2) tasks
    have ag: "\<forall>p<n. (p \<in> set dn \<longleftrightarrow> status (heap (tick s) ! p) \<noteq> Pending)" by simp
    from Cons.IH [OF ci ag] eq show ?thesis by (simp add: Tick run_Cons)
  next
    case (Settle p out)
    show ?thesis
    proof (cases "p < n \<and> p \<notin> set dn")
      case False
      then have "step n e s = s"
        using Cons.prems(2) by (auto simp: Settle settle_task_eq resolving_def)
      moreover from False have "settlements n dn (e # evs) = settlements n dn evs"
        by (auto simp: Settle)
      ultimately show ?thesis using Cons.IH [OF Cons.prems] by (simp add: run_Cons)
    next
      case True
      let ?s = "resolving (kind_of out) p (val_of out) s"
      from True Cons.prems(2) have pe: "status (heap s ! p) = Pending" and p: "p < n" by auto
      from Cons.prems(1) have "length (heap s) = n + 3 + 2 * length A"
        by (simp add: chain_inv_def shape_def)
      with p have plen: "p < length (heap s)" by simp
      have st: "step n e s = ?s" using True by (simp add: Settle settle_task_eq)
      have ci: "chain_inv n A action ?s" by (rule chain_inv_settle [OF Cons.prems(1) p])
      have q: "qobs ?s = qobs s @ replicate (count_list A p) out"
        using qobs_settle [OF Cons.prems(1) p pe, of "kind_of out" "val_of out"] by simp
      have ag: "\<forall>q<n. (q \<in> set (p # dn) \<longleftrightarrow> status (heap ?s ! q) \<noteq> Pending)"
        using Cons.prems(2) pe plen by (auto simp: heap_resolving)
      from Cons.IH [OF ci ag] show ?thesis
        using True by (simp add: Settle run_Cons settle_task_eq q observed_Cons)
    qed
  qed
qed

lemma drain_tick: "jobs s \<noteq> [] \<Longrightarrow> drain s = drain (tick s)"
  by (subst drain.simps) simp

lemma drain_results:
  "chain_inv n A action s \<Longrightarrow>
     results (drain s) @ successes (qobs (drain s)) = results s @ successes (qobs s)"
proof (induction s rule: drain.induct)
  case (1 s)
  show ?case
  proof (cases "jobs s = []")
    case True
    then show ?thesis by (simp add: drain_empty)
  next
    case False
    from chain_inv_tick [OF "1.prems"]
    have ci: "chain_inv n A action (tick s)"
      and eq: "results (tick s) @ successes (qobs (tick s)) = results s @ successes (qobs s)"
      by simp_all
    from "1.IH" [OF False ci] eq show ?thesis by (simp add: drain_tick [OF False])
  qed
qed

lemma qobs_drain [simp]: "qobs (drain s) = []"
  by (simp add: qobs_def List.map_filter_def)

lemma settled_tasks_agree: "\<forall>p<n. (p \<in> set (settled_tasks n s) \<longleftrightarrow> status (heap s ! p) \<noteq> Pending)"
  by (simp add: settled_tasks_def)

text \<open>The state once the queue has run, after any schedule.\<close>

lemma chain_final:
  fixes action :: reducer and pre post :: "event list"
  assumes A: "\<forall>q \<in> set A. q < n"
  defines "s0 \<equiv> run n pre (world n)"
  defines "f \<equiv> drain (run n post (snd (chainPromises A action s0)))"
  shows "fst (chainPromises A action s0) = n" and "chain_inv2 n A action f"
    and "results f = successes (at_call A s0 @ observed A (settlements n (settled_tasks n s0) post))"
proof -
  let ?s1 = "snd (chainPromises A action s0)"
  have idle: "idle n s0" unfolding s0_def by (intro idle_run idle_world)
  note ci = chainPromises_inv [OF idle A, of action]
  show "fst (chainPromises A action s0) = n" by (rule ci(1))
  have i2: "chain_inv2 n A action ?s1" by (rule chainPromises_inv2 [OF idle A])
  then show "chain_inv2 n A action f" unfolding f_def by (intro chain_inv2_drain chain_inv2_run)
  have ag: "\<forall>p<n. (p \<in> set (settled_tasks n s0) \<longleftrightarrow> status (heap ?s1 ! p) \<noteq> Pending)"
    using ci(5) by (simp add: settled_tasks_def)
  from i2 have "chain_inv n A action (run n post ?s1)"
    using chain_inv2_run [of n A action ?s1 post] by (simp add: chain_inv2_def)
  from drain_results [OF this] run_results [OF ci(2) ag, of post]
  show "results f = successes (at_call A s0 @ observed A (settlements n (settled_tasks n s0) post))"
    by (simp add: f_def ci(3,4))
qed

subsection \<open>What the invariant says about the returned promise\<close>

lemma reduce_from_calls:
  "x \<in> set (snd (reduce_from action arr k acc xs)) \<Longrightarrow> \<exists>a b i. x = Invoked a b i"
proof (induction xs arbitrary: k acc)
  case Nil
  then show ?case by simp
next
  case (Cons y ys)
  show ?case
  proof (cases "action acc y k arr")
    case (Throw e)
    with Cons.prems show ?thesis by simp
  next
    case (Normal acc')
    with Cons.prems have "x = Invoked acc y k \<or> x \<in> set (snd (reduce_from action arr (Suc k) acc' ys))"
      by (simp add: split_def)
    with Cons.IH [of "Suc k" acc'] show ?thesis by auto
  qed
qed

lemma reduce_calls: "\<forall>x \<in> set (snd (reduce action vs)). \<exists>a b i. x = Invoked a b i"
  using reduce_from_calls by (cases vs) (auto simp: reduce_def)

lemma reduce_Nil: "reduce action [] = (Throw (TypeError ''Reduce of empty array with no initial value''), [])"
  by (simp add: reduce_def)

lemma reduce_from_binary:
  "fst (reduce_from (binary op) arr k acc xs) = Normal (foldl op acc xs)"
  by (induction xs arbitrary: k acc) (simp_all add: binary_def split_def)

lemma reduce_binary:
  "vs \<noteq> [] \<Longrightarrow> fst (reduce (binary op) vs) = Normal (foldl op (hd vs) (tl vs))"
  by (cases vs) (simp_all add: reduce_def reduce_from_binary)

lemma count_list_calls: "\<forall>x \<in> set calls. \<exists>a b i. x = Invoked a b i \<Longrightarrow> count_list calls Fired = 0"
  by (induction calls) auto

lemma pend_zero: "pend A s = 0 \<longleftrightarrow> (\<forall>p \<in> set A. status (heap s ! p) \<noteq> Pending)"
  by (simp add: pend_def filter_empty_conv)

lemma ful_zero: "ful A s = 0 \<longleftrightarrow> (\<forall>p \<in> set A. \<not> is_fulfilled (status (heap s ! p)))"
  by (simp add: ful_def filter_empty_conv)

text \<open>The promise \<^verbatim>\<open>allProms\<close> is pending: nothing has happened to the returned promise.\<close>

lemma inv_before:
  assumes "chain_inv n A action s" and "status (heap s ! Suc n) = Pending"
  shows "status (heap s ! n) = Pending" and "probes s = []"
    and "promisesCompleted s < length A \<or> A = []"
  using assms by (simp_all add: chain_inv_def phase_def)

text \<open>The promise \<^verbatim>\<open>allProms\<close> is settled: every task has been counted.\<close>

lemma inv_after:
  assumes "chain_inv n A action s" and "status (heap s ! Suc n) \<noteq> Pending"
  shows "promisesCompleted s = length A" and "A \<noteq> []" and "pend A s = 0" and "qobs s = []"
    and "status (heap s ! Suc n) = Fulfilled (Arr (results s))"
    and "filter is_final (jobs s) \<noteq> [] \<Longrightarrow> status (heap s ! n) = Pending \<and> probes s = [Fired]"
    and "filter is_final (jobs s) = [] \<Longrightarrow>
      (case reduce action (results s) of
         (Normal r, calls) \<Rightarrow> status (heap s ! n) = Fulfilled r \<and>
            status (heap s ! (n + 2 + 2 * length A)) = Fulfilled Undefined \<and>
            probes s = Fired # calls @ [ResCalled r]
       | (Throw e, calls) \<Rightarrow> status (heap s ! n) = Pending \<and>
            status (heap s ! (n + 2 + 2 * length A)) = Rejected e \<and> probes s = Fired # calls)"
proof -
  from assms have ph: "phase n A action s" and co: "counted A s" by (simp_all add: chain_inv_def)
  from ph assms(2) obtain x where x: "status (heap s ! Suc n) = Fulfilled x"
    by (cases "status (heap s ! Suc n)") (simp_all add: phase_def)
  with ph show pc: "promisesCompleted s = length A" and "A \<noteq> []"
    and "status (heap s ! Suc n) = Fulfilled (Arr (results s))"
    by (simp_all add: phase_def)
  with co show "pend A s = 0" and "qobs s = []" by (simp_all add: counted_def)
  show "filter is_final (jobs s) \<noteq> [] \<Longrightarrow> status (heap s ! n) = Pending \<and> probes s = [Fired]"
    using ph x by (simp add: phase_def)
  show "filter is_final (jobs s) = [] \<Longrightarrow>
      (case reduce action (results s) of
         (Normal r, calls) \<Rightarrow> status (heap s ! n) = Fulfilled r \<and>
            status (heap s ! (n + 2 + 2 * length A)) = Fulfilled Undefined \<and>
            probes s = Fired # calls @ [ResCalled r]
       | (Throw e, calls) \<Rightarrow> status (heap s ! n) = Pending \<and>
            status (heap s ! (n + 2 + 2 * length A)) = Rejected e \<and> probes s = Fired # calls)"
    using ph x by (simp add: phase_def)
qed

lemma inv_all_counted:
  assumes "chain_inv n A action s" and "A \<noteq> []" and "jobs s = []"
    and "\<forall>p \<in> set A. status (heap s ! p) \<noteq> Pending"
  shows "status (heap s ! Suc n) \<noteq> Pending"
proof
  assume P: "status (heap s ! Suc n) = Pending"
  from assms(1) have "counted A s" by (simp add: chain_inv_def)
  moreover from assms(4) have "pend A s = 0" by (simp add: pend_zero)
  ultimately have "promisesCompleted s = length A"
    using assms(3) by (simp add: counted_def qobs_def List.map_filter_def)
  with inv_before(3) [OF assms(1) P] assms(2) show False by simp
qed


subsection \<open>The statuses of the tasks along a schedule\<close>

lemma settlements_done: "p \<in> set dn \<Longrightarrow> map_of (settlements n dn evs) p = None"
proof (induction evs arbitrary: dn)
  case Nil
  then show ?case by simp
next
  case (Cons e evs)
  then show ?case by (cases e) auto
qed

lemma run_status:
  assumes "chain_inv n A action s"
    and "\<forall>p<n. (p \<in> set dn \<longleftrightarrow> status (heap s ! p) \<noteq> Pending)"
    and "p < n"
  shows "status (heap (run n evs s) ! p) =
    (case map_of (settlements n dn evs) p of
       Some out \<Rightarrow> settled (kind_of out) (val_of out)
     | None \<Rightarrow> status (heap s ! p))"
  using assms(1,2)
proof (induction evs arbitrary: s dn)
  case Nil
  then show ?case by (simp add: run_def)
next
  case (Cons e evs)
  show ?case
  proof (cases e)
    case Tick
    from chain_inv_tick [OF Cons.prems(1)]
    have ci: "chain_inv n A action (tick s)" and tasks: "\<forall>p<n. heap (tick s) ! p = heap s ! p"
      by simp_all
    from Cons.prems(2) tasks
    have ag: "\<forall>p<n. (p \<in> set dn \<longleftrightarrow> status (heap (tick s) ! p) \<noteq> Pending)" by simp
    from Cons.IH [OF ci ag] tasks assms(3) show ?thesis
      by (simp add: Tick run_Cons split: option.splits)
  next
    case (Settle q out)
    show ?thesis
    proof (cases "q < n \<and> q \<notin> set dn")
      case False
      then have "step n e s = s"
        using Cons.prems(2) by (auto simp: Settle settle_task_eq resolving_def)
      moreover from False have "settlements n dn (e # evs) = settlements n dn evs"
        by (auto simp: Settle)
      ultimately show ?thesis using Cons.IH [OF Cons.prems] by (simp add: run_Cons)
    next
      case True
      let ?s = "resolving (kind_of out) q (val_of out) s"
      from True Cons.prems(2) have pe: "status (heap s ! q) = Pending" and q: "q < n" by auto
      from Cons.prems(1) have "length (heap s) = n + 3 + 2 * length A"
        by (simp add: chain_inv_def shape_def)
      with q have qlen: "q < length (heap s)" by simp
      have ci: "chain_inv n A action ?s" by (rule chain_inv_settle [OF Cons.prems(1) q])
      have ag: "\<forall>r<n. (r \<in> set (q # dn) \<longleftrightarrow> status (heap ?s ! r) \<noteq> Pending)"
        using Cons.prems(2) pe qlen by (auto simp: heap_resolving)
      have st: "settlements n dn (e # evs) = (q, out) # settlements n (q # dn) evs"
        using True by (simp add: Settle)
      have run: "run n (e # evs) s = run n evs ?s"
        using True by (simp add: Settle run_Cons settle_task_eq)
      show ?thesis
      proof (cases "p = q")
        case True
        with Cons.IH [OF ci ag] settlements_done [of q "q # dn" n evs] pe qlen
        show ?thesis by (simp add: st run heap_resolving)
      next
        case False
        with Cons.IH [OF ci ag] show ?thesis
          by (simp add: st run heap_resolving split: option.splits)
      qed
    qed
  qed
qed

lemma drain_tasks:
  "chain_inv n A action s \<Longrightarrow> p < n \<Longrightarrow> heap (drain s) ! p = heap s ! p"
proof (induction s rule: drain.induct)
  case (1 s)
  show ?case
  proof (cases "jobs s = []")
    case True
    then show ?thesis by (simp add: drain_empty)
  next
    case False
    from chain_inv_tick [OF "1.prems"(1)] "1.prems"(2)
    have ci: "chain_inv n A action (tick s)" and eq: "heap (tick s) ! p = heap s ! p"
      by simp_all
    from "1.IH" [OF False ci "1.prems"(2)] eq show ?thesis by (simp add: drain_tick [OF False])
  qed
qed

text \<open>The tasks after the call, a schedule and the run of the queue.\<close>

lemma task_status:
  fixes action :: reducer and pre post :: "event list"
  assumes A: "\<forall>q \<in> set A. q < n" and p: "p < n"
  defines "s0 \<equiv> run n pre (world n)"
  defines "s \<equiv> run n post (snd (chainPromises A action s0))"
  shows "status (heap s ! p) =
    (case map_of (settlements n (settled_tasks n s0) post) p of
       Some out \<Rightarrow> settled (kind_of out) (val_of out)
     | None \<Rightarrow> status (heap s0 ! p))"
    and "status (heap (drain s) ! p) = status (heap s ! p)"
proof -
  let ?s1 = "snd (chainPromises A action s0)"
  have idle: "idle n s0" unfolding s0_def by (intro idle_run idle_world)
  note ci = chainPromises_inv [OF idle A, of action]
  have ag: "\<forall>p<n. (p \<in> set (settled_tasks n s0) \<longleftrightarrow> status (heap ?s1 ! p) \<noteq> Pending)"
    using ci(5) by (simp add: settled_tasks_def)
  from run_status [OF ci(2) ag p, of post] ci(5) p
  show "status (heap s ! p) =
    (case map_of (settlements n (settled_tasks n s0) post) p of
       Some out \<Rightarrow> settled (kind_of out) (val_of out)
     | None \<Rightarrow> status (heap s0 ! p))"
    by (simp add: s_def split: option.splits)
  have "chain_inv2 n A action s"
    unfolding s_def by (intro chain_inv2_run chainPromises_inv2 [OF idle A])
  then have "chain_inv n A action s" by (simp add: chain_inv2_def)
  from drain_tasks [OF this p] show "status (heap (drain s) ! p) = status (heap s ! p)" by simp
qed


lemma world_status:
  assumes "idle n s" and "\<forall>p<n. (p \<in> set dn \<longleftrightarrow> status (heap s ! p) \<noteq> Pending)" and "p < n"
  shows "status (heap (run n evs s) ! p) =
    (case map_of (settlements n dn evs) p of
       Some out \<Rightarrow> settled (kind_of out) (val_of out)
     | None \<Rightarrow> status (heap s ! p))"
  using assms(1,2)
proof (induction evs arbitrary: s dn)
  case Nil
  then show ?case by (simp add: run_def)
next
  case (Cons e evs)
  show ?case
  proof (cases e)
    case Tick
    from Cons.prems(1) have "tick s = s" by (simp add: idle_def tick_def)
    with Cons.IH [OF Cons.prems] show ?thesis by (simp add: Tick run_Cons)
  next
    case (Settle q out)
    show ?thesis
    proof (cases "q < n \<and> q \<notin> set dn")
      case False
      then have "step n e s = s"
        using Cons.prems(2) by (auto simp: Settle settle_task_eq resolving_def)
      moreover from False have "settlements n dn (e # evs) = settlements n dn evs"
        by (auto simp: Settle)
      ultimately show ?thesis using Cons.IH [OF Cons.prems] by (simp add: run_Cons)
    next
      case True
      let ?s = "resolving (kind_of out) q (val_of out) s"
      from True Cons.prems(2) have pe: "status (heap s ! q) = Pending" and q: "q < n" by auto
      from Cons.prems(1) q have qlen: "q < length (heap s)" by (simp add: idle_def)
      have "step n e s = ?s" using True by (simp add: Settle settle_task_eq)
      with idle_step [OF Cons.prems(1), of e] have ci: "idle n ?s" by simp
      have ag: "\<forall>r<n. (r \<in> set (q # dn) \<longleftrightarrow> status (heap ?s ! r) \<noteq> Pending)"
        using Cons.prems(2) pe qlen by (auto simp: heap_resolving)
      have st: "settlements n dn (e # evs) = (q, out) # settlements n (q # dn) evs"
        using True by (simp add: Settle)
      have run: "run n (e # evs) s = run n evs ?s"
        using True by (simp add: Settle run_Cons settle_task_eq)
      show ?thesis
      proof (cases "p = q")
        case True
        with Cons.IH [OF ci ag] settlements_done [of q "q # dn" n evs] pe qlen
        show ?thesis by (simp add: st run heap_resolving)
      next
        case False
        with Cons.IH [OF ci ag] show ?thesis
          by (simp add: st run heap_resolving split: option.splits)
      qed
    qed
  qed
qed

lemma before_call_status:
  "p < n \<Longrightarrow> status (heap (run n pre (world n)) ! p) =
    (case map_of (settlements n [] pre) p of
       Some out \<Rightarrow> settled (kind_of out) (val_of out)
     | None \<Rightarrow> Pending)"
proof -
  assume p: "p < n"
  have ag: "\<forall>p<n. (p \<in> set [] \<longleftrightarrow> status (heap (world n) ! p) \<noteq> Pending)"
    by (simp add: world_def)
  from p have "status (heap (world n) ! p) = Pending" by (simp add: world_def)
  with world_status [OF idle_world ag p, of pre] show ?thesis
    by (simp split: option.splits)
qed

lemmas schedule_simps = before_call_status task_status at_call_def observed_def settled_tasks_def

subsection \<open>The returned promise once every task has settled\<close>

lemma chain_fold:
  fixes op :: "val \<Rightarrow> val \<Rightarrow> val"
  assumes A: "\<forall>p \<in> set A. p < n"
    and s0: "s0 = run n pre (world n)"
    and call: "chainPromises A (binary op) s0 = (result, s1)"
    and f: "f = drain (run n post s1)"
    and settled: "\<forall>p \<in> set A. status (heap f ! p) \<noteq> Pending"
    and some: "0 < ful A f"
    and vs: "vs = successes (at_call A s0 @ observed A (settlements n (settled_tasks n s0) post))"
  shows "status (heap f ! result) = Fulfilled (foldl op (hd vs) (tl vs)) \<and> length vs = ful A f"
proof -
  from call have s1: "s1 = snd (chainPromises A (binary op) s0)"
    and r: "result = fst (chainPromises A (binary op) s0)" by simp_all
  note fin1 = chain_final(1) [OF A, where action = "binary op" and pre = pre, folded s0]
  note fin2 = chain_final(2) [OF A, where action = "binary op" and pre = pre and post = post,
      folded s0, folded s1, folded f]
  note fin3 = chain_final(3) [OF A, where action = "binary op" and pre = pre and post = post,
      folded s0, folded s1, folded f]
  from fin1 r have res: "result = n" by simp
  from fin2 have ci: "chain_inv n A (binary op) f"
    and fu: "length (results f) + length (successes (qobs f)) = ful A f"
    by (simp_all add: chain_inv2_def)
  have jf: "jobs f = []" by (simp add: f)
  have qf: "qobs f = []" by (simp add: f)
  from fin3 vs have rv: "results f = vs" by simp
  from fu qf rv have len: "length vs = ful A f" by simp
  with some have ne: "vs \<noteq> []" by auto
  from some have "A \<noteq> []" by (auto simp: ful_def)
  from inv_all_counted [OF ci this jf settled] have P: "status (heap f ! Suc n) \<noteq> Pending" .
  from inv_after(7) [OF ci P] jf reduce_binary [OF ne, of op]
  have "status (heap f ! n) = Fulfilled (foldl op (hd vs) (tl vs))"
    by (auto simp: rv split: prod.splits completion.splits)
  with len res show ?thesis by simp
qed

subsection \<open>The states that a call and a schedule reach\<close>

lemma res_calls_append [simp]: "res_calls (xs @ ys) = res_calls xs @ res_calls ys"
  by (induction xs rule: res_calls.induct) simp_all

lemma res_calls_invoked: "\<forall>x \<in> set calls. \<exists>a b i. x = Invoked a b i \<Longrightarrow> res_calls calls = []"
  by (induction calls) auto

lemma run_append: "run n (evs @ evs') s = run n evs' (run n evs s)"
  by (simp add: run_def)

lemma chain_reach:
  fixes action :: reducer and pre post :: "event list"
  assumes A: "\<forall>q \<in> set A. q < n"
  defines "c \<equiv> chainPromises A action (run n pre (world n))"
  shows "fst c = n" and "chain_inv2 n A action (run n post (snd c))"
    and "chain_inv2 n A action (drain (run n post (snd c)))"
proof -
  have idle: "idle n (run n pre (world n))" by (intro idle_run idle_world)
  from chainPromises_inv(1) [OF idle A, of action] show "fst c = n" by (simp add: c_def)
  from chainPromises_inv2 [OF idle A, of action]
  show "chain_inv2 n A action (run n post (snd c))" unfolding c_def by (rule chain_inv2_run)
  then show "chain_inv2 n A action (drain (run n post (snd c)))" by (rule chain_inv2_drain)
qed

text \<open>As long as no task of the array has succeeded.\<close>

lemma no_success:
  assumes inv: "chain_inv2 n A action s"
    and none: "\<forall>p \<in> set A. \<not> is_fulfilled (status (heap s ! p))"
  shows "results s = []" and "status (heap s ! n) = Pending"
    and "probes s = [] \<or> probes s = [Fired]"
    and "A \<noteq> [] \<Longrightarrow> jobs s = [] \<Longrightarrow> \<forall>p \<in> set A. status (heap s ! p) \<noteq> Pending \<Longrightarrow>
      probes s = [Fired] \<and> status (heap s ! (n + 2 + 2 * length A)) =
        Rejected (TypeError ''Reduce of empty array with no initial value'')"
proof -
  from inv have ci: "chain_inv n A action s"
    and fu: "length (results s) + length (successes (qobs s)) = ful A s"
    by (simp_all add: chain_inv2_def)
  from none have "ful A s = 0" by (simp add: ful_zero)
  with fu show res: "results s = []" by simp
  have both: "status (heap s ! n) = Pending \<and> (probes s = [] \<or> probes s = [Fired])"
  proof (cases "status (heap s ! Suc n) = Pending")
    case True
    with inv_before [OF ci] show ?thesis by simp
  next
    case False
    note after = inv_after [OF ci False]
    show ?thesis
    proof (cases "filter is_final (jobs s) = []")
      case True
      with after(7) show ?thesis by (simp add: res reduce_Nil)
    next
      case False
      with after(6) show ?thesis by simp
    qed
  qed
  then show "status (heap s ! n) = Pending" and "probes s = [] \<or> probes s = [Fired]" by simp_all
  show "probes s = [Fired] \<and> status (heap s ! (n + 2 + 2 * length A)) =
        Rejected (TypeError ''Reduce of empty array with no initial value'')"
    if "A \<noteq> []" "jobs s = []" "\<forall>p \<in> set A. status (heap s ! p) \<noteq> Pending"
  proof -
    from inv_all_counted [OF ci that] have P: "status (heap s ! Suc n) \<noteq> Pending" .
    from inv_after(7) [OF ci P] that(2) show ?thesis by (simp add: res reduce_Nil)
  qed
qed

lemma count_list_append [simp]: "count_list (xs @ ys) x = count_list xs x + count_list ys x"
  by (induction xs) simp_all

text \<open>The log: the finalization test has succeeded at most once, \<^verbatim>\<open>res\<close> was called at most once.\<close>

lemma inv_probes:
  assumes ci: "chain_inv n A action s"
  shows "count_list (probes s) Fired = (if status (heap s ! Suc n) = Pending then 0 else 1)"
    and "length (res_calls (probes s)) \<le> 1"
proof -
  have "count_list (probes s) Fired = (if status (heap s ! Suc n) = Pending then 0 else 1) \<and>
    length (res_calls (probes s)) \<le> 1"
  proof (cases "status (heap s ! Suc n) = Pending")
    case True
    with inv_before(2) [OF ci] show ?thesis by simp
  next
    case False
    note after = inv_after [OF ci False]
    show ?thesis
    proof (cases "filter is_final (jobs s) = []")
      case fin: False
      with after(6) False show ?thesis by simp
    next
      case True
      obtain c calls where red: "reduce action (results s) = (c, calls)"
        by (cases "reduce action (results s)")
      with reduce_calls [of action "results s"]
      have calls: "\<forall>x \<in> set calls. \<exists>a b i. x = Invoked a b i" by simp
      from after(7) [OF True] red False count_list_calls [OF calls] res_calls_invoked [OF calls]
      show ?thesis by (cases c) simp_all
    qed
  qed
  then show "count_list (probes s) Fired = (if status (heap s ! Suc n) = Pending then 0 else 1)"
    and "length (res_calls (probes s)) \<le> 1" by simp_all
qed

lemma inv_settled_result:
  assumes ci: "chain_inv n A action s" and "status (heap s ! n) \<noteq> Pending"
  shows "\<forall>p \<in> set A. status (heap s ! p) \<noteq> Pending"
proof -
  from assms inv_before(1) [OF ci] have "status (heap s ! Suc n) \<noteq> Pending" by auto
  from inv_after(3) [OF ci this] show ?thesis by (simp add: pend_zero)
qed

lemma inv_pending_task:
  assumes ci: "chain_inv n A action s" and "\<exists>p \<in> set A. status (heap s ! p) = Pending"
  shows "status (heap s ! Suc n) = Pending"
proof (rule ccontr)
  assume "status (heap s ! Suc n) \<noteq> Pending"
  from inv_after(3) [OF ci this] assms(2) show False by (simp add: pend_zero)
qed

section \<open>The invariant of the wrappers\<close>



subsection \<open>Wrapper lemmas\<close>

lemma wphase_cong:
  assumes "heap s' ! Suc n = heap s ! Suc n" and "status (heap s' ! n) = status (heap s ! n)"
    and "wq n N s' = wq n N s"
  shows "wphase n N s' = wphase n N s"
  unfolding wphase_def assms by (rule refl)

lemma wrap_inv_cong:
  assumes "heap s' = heap s" and "jobs s' = jobs s"
  shows "wrap_inv n N s' = wrap_inv n N s"
  unfolding wrap_inv_def wphase_def wq_def assms by (rule refl)

lemma lib_reg_job: "lib_reg n N r \<Longrightarrow> lib_job n N (job_of k v r) \<and> target (job_of k v r) < n + 2 + N"
  by (cases k) (auto simp: lib_reg_def lib_job_def)

lemma lib_regs_wq: "\<forall>r \<in> set rs. lib_reg n N r \<Longrightarrow> filter (\<lambda>j. n + 2 + N \<le> target j) (map (job_of k v) rs) = []"
  by (induction rs) (auto dest: lib_reg_job [where k = k and v = v])

text \<open>The environment settles a task.\<close>

lemma wrap_inv_task:
  assumes inv: "wrap_inv n N s" and p: "p < n"
  shows "wrap_inv n N (resolving k p v s)"
proof (cases "status (heap s ! p) = Pending")
  case False
  then show ?thesis using inv by (simp add: resolving_def)
next
  case True
  let ?s = "resolving k p v s"
  from inv p have plen: "p < length (heap s)" by (simp add: wrap_inv_def)
  from inv True p have regs: "\<forall>r \<in> set (reactions (heap s ! p)). lib_reg n N r"
    by (simp add: wrap_inv_def)
  have jobs: "jobs ?s = jobs s @ map (job_of k v) (reactions (heap s ! p))"
    using True plen by (simp add: jobs_resolving)
  have heap: "\<And>q. q \<noteq> p \<Longrightarrow> heap ?s ! q = heap s ! q" by (simp add: heap_resolving)
  have hp: "status (heap ?s ! p) = settled k v" using True plen by (simp add: heap_resolving)
  have w: "wq n N ?s = wq n N s" using lib_regs_wq [OF regs, of k v] by (simp add: wq_def jobs)
  have "wphase n N ?s = wphase n N s" using p by (intro wphase_cong) (simp_all add: heap w)
  moreover have "\<forall>j \<in> set (jobs ?s). target j < n + 2 + N \<longrightarrow> lib_job n N j"
    using inv regs by (auto simp: jobs wrap_inv_def dest: lib_reg_job)
  moreover have "\<forall>q<n. status (heap ?s ! q) = Pending \<longrightarrow>
      (\<forall>r \<in> set (reactions (heap ?s ! q)). lib_reg n N r)"
    using inv hp by (auto simp: wrap_inv_def heap_resolving)
  moreover have "\<forall>q. n \<le> q \<and> q < n + 4 + N \<and> q \<noteq> Suc n \<longrightarrow> reactions (heap ?s ! q) = []"
    using inv p by (auto simp: wrap_inv_def heap_resolving)
  ultimately show ?thesis using inv by (simp add: wrap_inv_def)
qed

text \<open>A derived promise is settled.\<close>

lemma wrap_inv_derived:
  assumes inv: "wrap_inv n N s" and d: "n + 2 \<le> d"
  shows "wrap_inv n N (resolving k d v s)" and "jobs (resolving k d v s) = jobs s"
    and "\<And>q. q < n + 2 \<Longrightarrow> heap (resolving k d v s) ! q = heap s ! q"
proof -
  let ?s = "resolving k d v s"
  have rd: "d < length (heap s) \<Longrightarrow> reactions (heap s ! d) = []"
    using inv d by (simp add: wrap_inv_def)
  show jobs: "jobs ?s = jobs s" using rd by (auto simp: jobs_resolving)
  show heap: "\<And>q. q < n + 2 \<Longrightarrow> heap ?s ! q = heap s ! q" using d by (simp add: heap_resolving)
  have w: "wq n N ?s = wq n N s" by (simp add: wq_def jobs)
  have "wphase n N ?s = wphase n N s" by (intro wphase_cong) (simp_all add: heap w)
  moreover have "\<forall>q. n \<le> q \<and> q < n + 4 + N \<and> q \<noteq> Suc n \<longrightarrow> reactions (heap ?s ! q) = []"
    using inv by (auto simp: wrap_inv_def heap_resolving)
  ultimately show "wrap_inv n N ?s" using inv d by (simp add: wrap_inv_def jobs heap)
qed

text \<open>The library settles its promise.\<close>

lemma wrap_inv_lib:
  assumes inv: "wrap_inv n N s"
  shows "wrap_inv n N (resolving k (Suc n) x s)"
proof (cases "status (heap s ! Suc n) = Pending")
  case False
  then show ?thesis using inv by (simp add: resolving_def)
next
  case True
  let ?s = "resolving k (Suc n) x s"
  from inv have len: "length (heap s) = n + 4 + N" and ph: "wphase n N s" by (simp_all add: wrap_inv_def)
  from ph True have rP: "reactions (heap s ! Suc n) = wregs n N"
    and R: "status (heap s ! n) = Pending" and w: "wq n N s = []"
    by (simp_all add: wphase_def)
  have jobs: "jobs ?s = jobs s @ map (job_of k x) (wregs n N)"
    using True len rP by (simp add: jobs_resolving)
  have heap: "\<And>q. q \<noteq> Suc n \<Longrightarrow> heap ?s ! q = heap s ! q" by (simp add: heap_resolving)
  have hP: "heap ?s ! Suc n = \<lparr>status = settled k x, reactions = []\<rparr>"
    using True len by (simp add: heap_resolving)
  have keep: "filter (\<lambda>j. n + 2 + N \<le> target j) (map (job_of k x) (wregs n N)) =
      map (job_of k x) (wregs n N)"
    by (cases k) (simp_all add: wregs_def)
  have w': "wq n N ?s = map (job_of k x) (wregs n N)"
    using w keep by (simp add: wq_def jobs)
  have Rn: "status (heap ?s ! n) = Pending" using R by (simp add: heap)
  have "wphase n N ?s"
    unfolding wphase_def hP w' Rn by (cases k) simp_all
  moreover have "\<forall>j \<in> set (map (job_of k x) (wregs n N)). \<not> target j < n + 2 + N"
    by (cases k) (simp_all add: wregs_def)
  then have "\<forall>j \<in> set (jobs ?s). target j < n + 2 + N \<longrightarrow> lib_job n N j"
    using inv unfolding jobs by (auto simp: wrap_inv_def)
  moreover have "\<forall>q<n. status (heap ?s ! q) = Pending \<longrightarrow>
      (\<forall>r \<in> set (reactions (heap ?s ! q)). lib_reg n N r)"
    using inv by (simp add: wrap_inv_def heap)
  moreover have "\<forall>q. n \<le> q \<and> q < n + 4 + N \<and> q \<noteq> Suc n \<longrightarrow> reactions (heap ?s ! q) = []"
    using inv by (simp add: wrap_inv_def heap)
  ultimately show ?thesis using len by (simp add: wrap_inv_def)
qed

lemma wrap_inv_fields [simp]:
  "wrap_inv n N (s\<lparr>all_values := a\<rparr>) = wrap_inv n N s"
  "wrap_inv n N (s\<lparr>remainingElementsCount := r\<rparr>) = wrap_inv n N s"
  by (rule wrap_inv_cong; simp)+

lemma wrap_inv_pop:
  assumes inv: "wrap_inv n N s" and j: "jobs s = j # js" and t: "target j < n + 2 + N"
  shows "wrap_inv n N (s\<lparr>jobs := js\<rparr>)"
proof -
  have w: "wq n N (s\<lparr>jobs := js\<rparr>) = wq n N s" using t by (simp add: wq_def j)
  have "wphase n N (s\<lparr>jobs := js\<rparr>) = wphase n N s" by (intro wphase_cong) (simp_all add: w)
  then show ?thesis using inv by (simp add: wrap_inv_def j)
qed

text \<open>What a handler of the library does: it changes the values and the count, and may settle the promise of the library.\<close>

lemma lib_call:
  assumes "lib_handler q h"
  shows "\<exists>a r. call h v s = (Normal Undefined, s\<lparr>all_values := a, remainingElementsCount := r\<rparr>) \<or>
    (\<exists>k x. call h v s = (Normal Undefined, resolving k q x (s\<lparr>all_values := a, remainingElementsCount := r\<rparr>)))"
proof (cases h)
  case (CallResolve p)
  with assms have "call h v s = (Normal Undefined, resolving Fulfill q v
      (s\<lparr>all_values := all_values s, remainingElementsCount := remainingElementsCount s\<rparr>))"
    by simp
  then show ?thesis by blast
next
  case (CallReject p)
  with assms have "call h v s = (Normal Undefined, resolving Reject q v
      (s\<lparr>all_values := all_values s, remainingElementsCount := remainingElementsCount s\<rparr>))"
    by simp
  then show ?thesis by blast
next
  case (ResolveElement i p)
  let ?a = "(all_values s)[i := v]" and ?r = "remainingElementsCount s - 1"
  let ?t = "s\<lparr>all_values := ?a, remainingElementsCount := ?r\<rparr>"
  show ?thesis
  proof (cases "?r = 0")
    case True
    with ResolveElement assms
    have "call h v s = (Normal Undefined, resolving Fulfill q (Arr ?a) ?t)" by (simp add: Let_def)
    then show ?thesis by blast
  next
    case False
    with ResolveElement assms have "call h v s = (Normal Undefined, ?t)" by (simp add: Let_def)
    then show ?thesis by blast
  qed
next
  case (OnTaskValue m p)
  with assms show ?thesis by simp
next
  case (OnTaskError m p)
  with assms show ?thesis by simp
next
  case (OnAllProms a p)
  with assms show ?thesis by simp
qed

lemma wrap_tick_lib:
  assumes inv: "wrap_inv n N s" and j: "jobs s = j # js" and t: "target j < n + 2 + N"
  shows "wrap_inv n N (run_job j (s\<lparr>jobs := js\<rparr>))"
proof -
  from inv j t have "lib_job n N j" by (simp add: wrap_inv_def)
  then obtain k h d v where jj: "j = Job k (Some h) d v" and h: "lib_handler (Suc n) h"
    and d: "n + 2 \<le> d" by (auto simp: lib_job_def)
  let ?s = "s\<lparr>jobs := js\<rparr>"
  have pop: "wrap_inv n N ?s" by (rule wrap_inv_pop [OF inv j t])
  from lib_call [OF h, of v ?s] obtain a r where
    c: "call h v ?s = (Normal Undefined, ?s\<lparr>all_values := a, remainingElementsCount := r\<rparr>) \<or>
      (\<exists>k x. call h v ?s = (Normal Undefined, resolving k (Suc n) x (?s\<lparr>all_values := a, remainingElementsCount := r\<rparr>)))"
    by blast
  let ?t = "?s\<lparr>all_values := a, remainingElementsCount := r\<rparr>"
  have t: "wrap_inv n N ?t" using pop by simp
  from c show ?thesis
  proof
    assume "call h v ?s = (Normal Undefined, ?t)"
    then have "run_job j ?s = resolve d Undefined ?t" by (simp add: jj)
    with wrap_inv_derived(1) [OF t d] show ?thesis by simp
  next
    assume "\<exists>k x. call h v ?s = (Normal Undefined, resolving k (Suc n) x ?t)"
    then obtain k' x where "call h v ?s = (Normal Undefined, resolving k' (Suc n) x ?t)" by blast
    then have "run_job j ?s = resolve d Undefined (resolving k' (Suc n) x ?t)" by (simp add: jj)
    with wrap_inv_derived(1) [OF wrap_inv_lib [OF t] d] show ?thesis by simp
  qed
qed

text \<open>A job of the wrapper: the callbacks of \<^verbatim>\<open>then\<close> and \<^verbatim>\<open>catch\<close> on the promise of the library.\<close>

lemma wrap_tick_wrapper:
  assumes inv: "wrap_inv n N s" and j: "jobs s = j # js" and t: "n + 2 + N \<le> target j"
  defines "s' \<equiv> run_job j (s\<lparr>jobs := js\<rparr>)"
  shows "wrap_inv n N s' \<and> jobs s' = js \<and> (\<forall>q. q \<noteq> n \<and> q < n + 2 + N \<longrightarrow> heap s' ! q = heap s ! q) \<and>
    all_values s' = all_values s \<and> remainingElementsCount s' = remainingElementsCount s \<and>
    (\<forall>h. j \<noteq> Job Fulfill (Some (CallResolve (Suc n))) (target j) h \<and>
         j \<noteq> Job Reject (Some (CallReject (Suc n))) (target j) h)"
proof -
  let ?D1 = "n + 2 + N" and ?D2 = "n + 3 + N"
  let ?s = "s\<lparr>jobs := js\<rparr>"
  from inv have len: "length (heap s) = n + 4 + N" and ph: "wphase n N s"
    and noregs: "\<And>p. n \<le> p \<Longrightarrow> p < n + 4 + N \<Longrightarrow> p \<noteq> Suc n \<Longrightarrow> reactions (heap s ! p) = []"
    by (simp_all add: wrap_inv_def)
  have wqs: "wq n N s = j # wq n N ?s" using t by (simp add: wq_def j)
  have rest: "\<forall>j' \<in> set js. target j' < n + 2 + N \<longrightarrow> lib_job n N j'"
    using inv by (simp add: wrap_inv_def j)
  have tasks: "\<forall>p<n. status (heap s ! p) = Pending \<longrightarrow> (\<forall>r \<in> set (reactions (heap s ! p)). lib_reg n N r)"
    using inv by (simp add: wrap_inv_def)
  text \<open>The four jobs that the wrapper can have in the queue.\<close>
  have cases: "(\<exists>v. status (heap s ! Suc n) = Fulfilled v \<and> status (heap s ! n) = Pending \<and>
        j = Job Fulfill (Some (CallResolve n)) ?D1 v \<and> wq n N ?s = [Job Fulfill None ?D2 v]) \<or>
      (\<exists>v. status (heap s ! Suc n) = Fulfilled v \<and> status (heap s ! n) = Fulfilled v \<and>
        j = Job Fulfill None ?D2 v \<and> wq n N ?s = []) \<or>
      (\<exists>e. status (heap s ! Suc n) = Rejected e \<and> status (heap s ! n) = Pending \<and>
        j = Job Reject None ?D1 e \<and> wq n N ?s = [Job Reject (Some (CallReject n)) ?D2 e]) \<or>
      (\<exists>e. status (heap s ! Suc n) = Rejected e \<and> status (heap s ! n) = Pending \<and>
        j = Job Reject (Some (CallReject n)) ?D2 e \<and> wq n N ?s = [])"
    using ph unfolding wphase_def wqs
    by (cases "status (heap s ! Suc n)") (auto simp: wregs_def)
  have rP: "reactions (heap s ! Suc n) = []"
    using ph cases by (auto simp: wphase_def)
  have allregs: "reactions (heap s ! q) = []" if "n \<le> q" "q < n + 4 + N" for q
    using that noregs [of q] rP by (cases "q = Suc n") simp_all
  have frame: "wrap_inv n N u"
    if "length (heap u) = length (heap s)" and "jobs u = js"
      and "\<And>q. q < n + 2 + N \<Longrightarrow> q \<noteq> n \<Longrightarrow> heap u ! q = heap s ! q"
      and "\<And>q. n \<le> q \<Longrightarrow> q < n + 4 + N \<Longrightarrow> reactions (heap u ! q) = []"
      and "wphase n N u" for u
    using that len rest tasks by (simp add: wrap_inv_def)
  from cases show ?thesis
  proof (elim disjE exE conjE)
    fix v assume P: "status (heap s ! Suc n) = Fulfilled v" and R: "status (heap s ! n) = Pending"
      and jj: "j = Job Fulfill (Some (CallResolve n)) ?D1 v" and w: "wq n N ?s = [Job Fulfill None ?D2 v]"
    have s': "s' = resolve ?D1 Undefined (resolve n v ?s)" by (simp add: s'_def jj)
    have js': "jobs s' = js" using len R noregs [of n] noregs [of ?D1]
      by (simp add: s' jobs_resolving heap_resolving)
    have h: "\<And>q. q \<noteq> n \<Longrightarrow> q \<noteq> ?D1 \<Longrightarrow> heap s' ! q = heap s ! q"
      by (simp add: s' heap_resolving)
    have hn: "heap s' ! n = \<lparr>status = Fulfilled v, reactions = []\<rparr>"
      using len R by (simp add: s' heap_resolving)
    have rr: "\<And>q. n \<le> q \<Longrightarrow> q < n + 4 + N \<Longrightarrow> reactions (heap s' ! q) = []"
      using allregs by (auto simp: s' heap_resolving)
    have w': "wq n N s' = [Job Fulfill None ?D2 v]" using w by (simp add: wq_def js')
    have "wphase n N s'" unfolding wphase_def w' hn h [of "Suc n", simplified] P
      by (simp add: wregs_def rP)
    then have "wrap_inv n N s'" using js' h rr by (intro frame) (simp_all add: s')
    then show ?thesis using js' h by (simp add: jj) (simp add: s')
  next
    fix v assume P: "status (heap s ! Suc n) = Fulfilled v" and R: "status (heap s ! n) = Fulfilled v"
      and jj: "j = Job Fulfill None ?D2 v" and w: "wq n N ?s = []"
    have s': "s' = resolve ?D2 v ?s" by (simp add: s'_def jj)
    have js': "jobs s' = js" using len noregs [of ?D2]
      by (simp add: s' jobs_resolving heap_resolving)
    have h: "\<And>q. q \<noteq> ?D2 \<Longrightarrow> heap s' ! q = heap s ! q"
      by (simp add: s' heap_resolving)
    have rr: "\<And>q. n \<le> q \<Longrightarrow> q < n + 4 + N \<Longrightarrow> reactions (heap s' ! q) = []"
      using allregs by (auto simp: s' heap_resolving)
    have w': "wq n N s' = []" using w by (simp add: wq_def js')
    have "wphase n N s'" unfolding wphase_def w' h [of "Suc n", simplified] h [of n, simplified] P R
      by (simp add: rP)
    then have "wrap_inv n N s'" using js' h rr by (intro frame) (simp_all add: s')
    then show ?thesis using js' h by (simp add: jj) (simp add: s')
  next
    fix e assume P: "status (heap s ! Suc n) = Rejected e" and R: "status (heap s ! n) = Pending"
      and jj: "j = Job Reject None ?D1 e" and w: "wq n N ?s = [Job Reject (Some (CallReject n)) ?D2 e]"
    have s': "s' = reject ?D1 e ?s" by (simp add: s'_def jj)
    have js': "jobs s' = js" using len noregs [of ?D1]
      by (simp add: s' jobs_resolving heap_resolving)
    have h: "\<And>q. q \<noteq> ?D1 \<Longrightarrow> heap s' ! q = heap s ! q"
      by (simp add: s' heap_resolving)
    have rr: "\<And>q. n \<le> q \<Longrightarrow> q < n + 4 + N \<Longrightarrow> reactions (heap s' ! q) = []"
      using allregs by (auto simp: s' heap_resolving)
    have w': "wq n N s' = [Job Reject (Some (CallReject n)) ?D2 e]" using w by (simp add: wq_def js')
    have "wphase n N s'" unfolding wphase_def w' h [of "Suc n", simplified] h [of n, simplified] P R
      by (simp add: rP wregs_def)
    then have "wrap_inv n N s'" using js' h rr by (intro frame) (simp_all add: s')
    then show ?thesis using js' h by (simp add: jj) (simp add: s')
  next
    fix e assume P: "status (heap s ! Suc n) = Rejected e" and R: "status (heap s ! n) = Pending"
      and jj: "j = Job Reject (Some (CallReject n)) ?D2 e" and w: "wq n N ?s = []"
    have s': "s' = resolve ?D2 Undefined (reject n e ?s)" by (simp add: s'_def jj)
    have js': "jobs s' = js" using len R noregs [of n] noregs [of ?D2]
      by (simp add: s' jobs_resolving heap_resolving)
    have h: "\<And>q. q \<noteq> n \<Longrightarrow> q \<noteq> ?D2 \<Longrightarrow> heap s' ! q = heap s ! q"
      by (simp add: s' heap_resolving)
    have hn: "heap s' ! n = \<lparr>status = Rejected e, reactions = []\<rparr>"
      using len R by (simp add: s' heap_resolving)
    have rr: "\<And>q. n \<le> q \<Longrightarrow> q < n + 4 + N \<Longrightarrow> reactions (heap s' ! q) = []"
      using allregs by (auto simp: s' heap_resolving)
    have w': "wq n N s' = []" using w by (simp add: wq_def js')
    have "wphase n N s'" unfolding wphase_def w' hn h [of "Suc n", simplified] P
      by (simp add: rP)
    then have "wrap_inv n N s'" using js' h rr by (intro frame) (simp_all add: s')
    then show ?thesis using js' h by (simp add: jj) (simp add: s')
  qed
qed

section \<open>The invariant of Promise.race\<close>

subsection \<open>Promise.race along a schedule\<close>

lemma idxs_Suc: "idxs A (Suc m) p = idxs A m p @ (if A ! m = p then [m] else [])"
  by (simp add: idxs_def)

lemma idxs_bound: "i \<in> set (idxs A m p) \<Longrightarrow> i < m \<and> A ! i = p"
  by (simp add: idxs_def)

lemma length_idxs_take: "m \<le> length A \<Longrightarrow> length (idxs A m p) = count_list (take m A) p"
proof (induction m)
  case 0
  then show ?case by (simp add: idxs_def)
next
  case (Suc m)
  then show ?case by (simp add: idxs_Suc take_Suc_conv_app_nth)
qed

lemma length_idxs: "length (idxs A (length A) p) = count_list A p"
  using length_idxs_take [of "length A" A p] by simp

lemma race_reg_obs:
  "List.map_filter (race_obs n) (map (job_of k v \<circ> race_reg n) is) = replicate (length is) (mk k v)"
  by (induction "is") (cases k; simp add: List.map_filter_def race_reg_def)+

lemma race_reg_job: "race_job n (job_of k v (race_reg n i))"
  by (cases k) (simp_all add: race_job_def race_reg_def)

lemma winner_cong:
  assumes "status (heap s' ! Suc n) = status (heap s ! Suc n)" and "race_q n s' = race_q n s"
  shows "winner n s' rest = winner n s rest"
  unfolding winner_def assms by (rule refl)

lemma race_inv_task:
  assumes inv: "race_inv n A s" and p: "p < n"
  shows "race_inv n A (resolving k p v s)"
    and "status (heap s ! p) = Pending \<Longrightarrow>
      race_q n (resolving k p v s) = race_q n s @ replicate (count_list A p) (mk k v)"
    and "status (heap (resolving k p v s) ! Suc n) = status (heap s ! Suc n)"
proof -
  let ?s = "resolving k p v s"
  from inv have wi: "wrap_inv n (length A) s" by (simp add: race_inv_def)
  then have len: "length (heap s) = n + 4 + length A" by (simp add: wrap_inv_def)
  with p have plen: "p < length (heap s)" by simp
  show "status (heap ?s ! Suc n) = status (heap s ! Suc n)" using p by (simp add: heap_resolving)
  show "race_q n ?s = race_q n s @ replicate (count_list A p) (mk k v)"
    if "status (heap s ! p) = Pending"
    using that inv p plen
    by (simp add: race_q_def jobs_resolving qobs_append race_inv_def race_reg_obs length_idxs)
  show "race_inv n A ?s"
  proof (cases "status (heap s ! p) = Pending")
    case False
    then show ?thesis using inv by (simp add: resolving_def)
  next
    case True
    from inv True p have regs: "reactions (heap s ! p) = map (race_reg n) (idxs A (length A) p)"
      by (simp add: race_inv_def)
    have jobs: "jobs ?s = jobs s @ map (job_of k v) (map (race_reg n) (idxs A (length A) p))"
      using True plen regs by (simp add: jobs_resolving)
    have hp: "status (heap ?s ! p) = settled k v" using True plen by (simp add: heap_resolving)
    have "\<forall>j \<in> set (jobs ?s). target j < n + 2 + length A \<longrightarrow> race_job n j"
      using inv by (auto simp: jobs race_inv_def race_reg_job)
    moreover have "\<forall>q<n. status (heap ?s ! q) = Pending \<longrightarrow>
        reactions (heap ?s ! q) = map (race_reg n) (idxs A (length A) q)"
      using inv hp by (auto simp: race_inv_def heap_resolving)
    ultimately show ?thesis using inv wrap_inv_task [OF wi p] by (simp add: race_inv_def)
  qed
qed

lemma race_obs_wregs: "List.map_filter (race_obs n) (map (job_of k x) (wregs n N)) = []"
  by (cases k) (simp_all add: wregs_def List.map_filter_def)

lemma race_inv_tick:
  assumes inv: "race_inv n A s"
  shows "race_inv n A (tick s) \<and> winner n (tick s) rest = winner n s rest \<and>
    (\<forall>p<n. heap (tick s) ! p = heap s ! p)"
proof (cases "jobs s")
  case Nil
  then show ?thesis using inv by (simp add: tick_def)
next
  case (Cons j js)
  let ?N = "length A"
  let ?s = "s\<lparr>jobs := js\<rparr>"
  have t: "tick s = run_job j ?s" by (simp add: tick_def Cons)
  from inv have wi: "wrap_inv n ?N s" and A: "\<forall>q \<in> set A. q < n"
    and regs: "\<forall>p<n. status (heap s ! p) = Pending \<longrightarrow>
        reactions (heap s ! p) = map (race_reg n) (idxs A ?N p)"
    and jf: "\<forall>j \<in> set (jobs s). target j < n + 2 + ?N \<longrightarrow> race_job n j"
    by (simp_all add: race_inv_def)
  from wi have len: "length (heap s) = n + 4 + ?N" and ph: "wphase n ?N s"
    by (simp_all add: wrap_inv_def)
  show ?thesis
  proof (cases "target j < n + 2 + ?N")
    case False
    from wrap_tick_wrapper [OF wi Cons] False
    have w': "wrap_inv n ?N (tick s)" and js': "jobs (tick s) = js"
      and h: "\<And>q. q \<noteq> n \<Longrightarrow> q < n + 2 + ?N \<Longrightarrow> heap (tick s) ! q = heap s ! q"
      and nl: "\<And>h. j \<noteq> Job Fulfill (Some (CallResolve (Suc n))) (target j) h \<and>
         j \<noteq> Job Reject (Some (CallReject (Suc n))) (target j) h"
      by (simp_all add: t)
    have "race_obs n j = None" using nl by (cases "(n, j)" rule: race_obs.cases) auto
    then have q: "race_q n (tick s) = race_q n s" by (simp add: race_q_def js' Cons List.map_filter_def)
    have "winner n (tick s) rest = winner n s rest"
      by (intro winner_cong) (simp_all add: h q)
    moreover have "race_inv n A (tick s)"
      using w' A regs jf by (simp add: race_inv_def js' Cons h)
    ultimately show ?thesis by (simp add: h)
  next
    case True
    with jf Cons have "race_job n j" by simp
    then obtain d v kk where jj: "j = Job kk (Some (case kk of Fulfill \<Rightarrow> CallResolve (Suc n) | Reject \<Rightarrow> CallReject (Suc n))) d v"
      by (auto simp: race_job_def intro: that [of Fulfill] that [of Reject])
    have ob: "race_obs n j = Some (mk kk v)" by (cases kk) (simp_all add: jj)
    from wi Cons True have "lib_job n ?N j" by (simp add: wrap_inv_def)
    with jj have d: "n + 2 \<le> d" "d < n + 2 + ?N" by (simp_all add: lib_job_def)
    have s': "tick s = resolve d Undefined (resolving kk (Suc n) v ?s)"
      by (cases kk) (simp_all add: t jj)
    have w': "wrap_inv n ?N (tick s)" using wrap_tick_lib [OF wi Cons True] by (simp add: t)
    from wi d have rd: "reactions (heap s ! d) = []" by (simp add: wrap_inv_def)
    have h: "\<And>q. q \<noteq> Suc n \<Longrightarrow> q \<noteq> d \<Longrightarrow> heap (tick s) ! q = heap s ! q"
      by (simp add: s' heap_resolving)
    have tasks: "\<forall>p<n. heap (tick s) ! p = heap s ! p" using d by (simp add: h)
    have hP: "status (heap (tick s) ! Suc n) =
        (if status (heap s ! Suc n) = Pending then settled kk v else status (heap s ! Suc n))"
      using d len by (simp add: s' heap_resolving)
    have js': "jobs (tick s) = js @ (if status (heap s ! Suc n) = Pending
        then map (job_of kk v) (wregs n ?N) else [])"
      using d len rd ph by (auto simp: s' jobs_resolving heap_resolving wphase_def)
    have q: "race_q n s = mk kk v # race_q n (tick s)"
      by (simp add: race_q_def js' Cons ob qobs_append race_obs_wregs)
    have win: "winner n (tick s) rest = winner n s rest"
      unfolding winner_def hP q by (cases "status (heap s ! Suc n)"; cases kk; simp)
    have "\<forall>j' \<in> set (map (job_of kk v) (wregs n ?N)). \<not> target j' < n + 2 + ?N"
      by (cases kk) (simp_all add: wregs_def)
    then have "\<forall>j' \<in> set (jobs (tick s)). target j' < n + 2 + ?N \<longrightarrow> race_job n j'"
      using jf unfolding js' Cons by auto
    then have "race_inv n A (tick s)"
      using w' A regs tasks by (simp add: race_inv_def)
    with win tasks show ?thesis by simp
  qed
qed

subsection \<open>The call of getFastestPromise\<close>

lemma race_loop_step:
  assumes inv: "race_loop_inv n A B s" and p: "p < n" and B: "length B < length A"
    and Ap: "A ! length B = p" and Bn: "\<forall>q \<in> set B. q < n"
  defines "s' \<equiv> race_each (Suc n) p s"
  shows "race_loop_inv n A (B @ [p]) s' \<and> (\<forall>q<n. status (heap s' ! q) = status (heap s ! q))"
proof -
  let ?m = "length B"
  let ?l = "n + 2 + ?m"
  from inv have len: "length (heap s) = ?l" by (simp add: race_loop_inv_def)
  with p have pl: "p < length (heap s)" by simp
  have eq: "s' = (case status (heap s ! p) of
       Pending \<Rightarrow> s\<lparr>heap := (heap s @ [fresh])[p := (heap s ! p)\<lparr>reactions := reactions (heap s ! p) @ [race_reg n ?m]\<rparr>]\<rparr>
     | Fulfilled v \<Rightarrow> s\<lparr>heap := heap s @ [fresh], jobs := jobs s @ [Job Fulfill (Some (CallResolve (Suc n))) ?l v]\<rparr>
     | Rejected e \<Rightarrow> s\<lparr>heap := heap s @ [fresh], jobs := jobs s @ [Job Reject (Some (CallReject (Suc n))) ?l e]\<rparr>)"
    by (simp add: s'_def race_each_def then_promise_snd [OF pl] len race_reg_def split: pstate.splits)
  have hl: "length (heap s') = n + 2 + length (B @ [p])"
    using len by (simp add: eq split: pstate.splits)
  have hq: "\<And>q. q \<noteq> p \<Longrightarrow> q < ?l \<Longrightarrow> heap s' ! q = heap s ! q"
    using len by (simp add: eq nth_append split: pstate.splits)
  have hnew: "heap s' ! ?l = fresh"
    using len p by (simp add: eq nth_append split: pstate.splits)
  have hp: "heap s' ! p = (case status (heap s ! p) of
       Pending \<Rightarrow> (heap s ! p)\<lparr>reactions := reactions (heap s ! p) @ [race_reg n ?m]\<rparr>
     | _ \<Rightarrow> heap s ! p)"
    using pl by (simp add: eq nth_append split: pstate.splits)
  have st: "\<forall>q<n. status (heap s' ! q) = status (heap s ! q)"
  proof (intro allI impI)
    fix q assume "q < n"
    then show "status (heap s' ! q) = status (heap s ! q)"
      by (cases "q = p") (simp_all add: hp hq split: pstate.splits)
  qed
  have 2: "\<forall>q. n \<le> q \<and> q < n + 2 + length (B @ [p]) \<longrightarrow> heap s' ! q = fresh"
  proof (intro allI impI)
    fix q assume q: "n \<le> q \<and> q < n + 2 + length (B @ [p])"
    show "heap s' ! q = fresh"
    proof (cases "q < ?l")
      case True
      with q p inv show ?thesis by (simp add: hq race_loop_inv_def)
    next
      case False
      with q have "q = ?l" by simp
      with hnew show ?thesis by simp
    qed
  qed
  have 3: "\<forall>q<n. status (heap s' ! q) = Pending \<longrightarrow>
      reactions (heap s' ! q) = map (race_reg n) (idxs A (length (B @ [p])) q)"
  proof (intro allI impI)
    fix q assume q: "q < n" and pe: "status (heap s' ! q) = Pending"
    with st have qp: "status (heap s ! q) = Pending" by simp
    with inv q have old: "reactions (heap s ! q) = map (race_reg n) (idxs A ?m q)"
      by (simp add: race_loop_inv_def)
    show "reactions (heap s' ! q) = map (race_reg n) (idxs A (length (B @ [p])) q)"
    proof (cases "q = p")
      case True
      with qp old Ap show ?thesis by (simp add: hp idxs_Suc)
    next
      case False
      with q old Ap show ?thesis by (simp add: hq idxs_Suc)
    qed
  qed
  have newjob: "\<And>k v. k = Fulfill \<or> k = Reject \<Longrightarrow>
      lib_job n (length A) (Job k (Some (case k of Fulfill \<Rightarrow> CallResolve (Suc n) | Reject \<Rightarrow> CallReject (Suc n))) ?l v)"
    using B by (auto simp: lib_job_def)
  have 4: "\<forall>j \<in> set (jobs s'). race_job n j \<and> lib_job n (length A) j"
    using inv newjob [of Fulfill] newjob [of Reject]
    by (auto simp: eq race_loop_inv_def race_job_def split: pstate.splits)
  have "at_call B s' = at_call B s" using Bn st by (intro at_call_cong) auto
  then have ac: "at_call (B @ [p]) s' = at_call B s @ obs_of (status (heap s ! p))"
    using st p by (simp add: at_call_snoc)
  have 5: "race_q n s' = at_call (B @ [p]) s'"
    using inv unfolding ac
    by (cases "status (heap s ! p)") (simp_all add: eq race_q_def race_loop_inv_def qobs_append List.map_filter_def)
  from hl 2 3 4 5 st show ?thesis unfolding race_loop_inv_def by blast
qed

lemma race_loop_fold:
  assumes "race_loop_inv n A B s" and "A = B @ C" and "\<forall>q \<in> set A. q < n"
  shows "race_loop_inv n A A (fold (race_each (Suc n)) C s) \<and>
    (\<forall>q<n. status (heap (fold (race_each (Suc n)) C s) ! q) = status (heap s ! q))"
  using assms
proof (induction C arbitrary: B s)
  case Nil
  then show ?case by simp
next
  case (Cons p C)
  from Cons.prems have p: "p < n" and B: "length B < length A" and Bn: "\<forall>q \<in> set B. q < n"
    and Ap: "A ! length B = p"
    by simp_all
  from race_loop_step [OF Cons.prems(1) p B Ap Bn]
  have 1: "race_loop_inv n A (B @ [p]) (race_each (Suc n) p s)"
    and 2: "\<forall>q<n. status (heap (race_each (Suc n) p s) ! q) = status (heap s ! q)"
    by simp_all
  from Cons.prems have "A = (B @ [p]) @ C" by simp
  from Cons.IH [OF 1 this Cons.prems(3)] 2 show ?case by simp
qed

lemma getFastestPromise_inv:
  assumes idle: "idle n s0" and A: "\<forall>q \<in> set A. q < n"
  defines "s1 \<equiv> snd (getFastestPromise A s0)"
  shows "fst (getFastestPromise A s0) = n" and "race_inv n A s1"
    and "race_q n s1 = at_call A s0" and "status (heap s1 ! Suc n) = Pending"
    and "\<forall>q<n. status (heap s1 ! q) = status (heap s0 ! q)"
proof -
  let ?N = "length A" and ?D1 = "n + 2 + length A" and ?D2 = "n + 3 + length A"
  define s2 where "s2 = s0\<lparr>heap := heap s0 @ [fresh, fresh]\<rparr>"
  define s3 where "s3 = fold (race_each (Suc n)) A s2"
  from idle have len0: "length (heap s0) = n" by (simp add: idle_def)
  have h2: "\<And>q. q < n \<Longrightarrow> heap s2 ! q = heap s0 ! q" using len0 by (simp add: s2_def nth_append)
  have "race_loop_inv n A [] s2"
    unfolding race_loop_inv_def using idle
    by (auto simp: h2 idle_def idxs_def race_q_def at_call_def List.map_filter_def)
       (auto simp: s2_def nth_append nth_Cons' idle_def)
  from race_loop_fold [OF this _ A, of A]
  have r3: "race_loop_inv n A A s3" and st3: "\<forall>q<n. status (heap s3 ! q) = status (heap s2 ! q)"
    by (simp_all add: s3_def)
  from r3 have len3: "length (heap s3) = ?D1" and P3: "heap s3 ! Suc n = fresh"
    and fr: "\<And>q. n \<le> q \<Longrightarrow> q < ?D1 \<Longrightarrow> heap s3 ! q = fresh"
    by (simp_all add: race_loop_inv_def)
  have cp: "getFastestPromise A s0 =
      (n, s3\<lparr>heap := (heap s3)[Suc n := fresh\<lparr>reactions := wregs n ?N\<rparr>] @ [fresh, fresh]\<rparr>)"
    using len0 len3 P3
    by (simp add: getFastestPromise_def Promise_race_def new_promise_def catch_promise_def
        then_promise_def s3_def s2_def fresh_def wregs_def nth_append list_update_append split_def
        numeral_3_eq_3)
  show "fst (getFastestPromise A s0) = n" by (simp add: cp)
  have s1: "s1 = s3\<lparr>heap := (heap s3)[Suc n := fresh\<lparr>reactions := wregs n ?N\<rparr>] @ [fresh, fresh]\<rparr>"
    by (simp add: s1_def cp)
  have hq: "\<And>q. q \<noteq> Suc n \<Longrightarrow> q < ?D1 \<Longrightarrow> heap s1 ! q = heap s3 ! q"
    using len3 by (simp add: s1 nth_append)
  have hP: "heap s1 ! Suc n = fresh\<lparr>reactions := wregs n ?N\<rparr>" using len3 by (simp add: s1 nth_append)
  have hD: "\<And>q. ?D1 \<le> q \<Longrightarrow> q < n + 4 + ?N \<Longrightarrow> heap s1 ! q = fresh"
    using len3 by (auto simp: s1 nth_append nth_Cons')
  show "status (heap s1 ! Suc n) = Pending" by (simp add: hP fresh_def)
  show st: "\<forall>q<n. status (heap s1 ! q) = status (heap s0 ! q)"
    using st3 by (simp add: hq h2)
  have js: "jobs s1 = jobs s3" by (simp add: s1)
  show "race_q n s1 = at_call A s0"
  proof -
    have "race_q n s1 = race_q n s3" by (simp add: race_q_def js)
    also have "\<dots> = at_call A s3" using r3 by (simp add: race_loop_inv_def)
    also have "\<dots> = at_call A s0" using A st3 by (intro at_call_cong) (simp add: h2)
    finally show ?thesis .
  qed
  have jl: "\<forall>j \<in> set (jobs s3). race_job n j \<and> lib_job n ?N j"
    using r3 by (simp add: race_loop_inv_def)
  then have tl: "\<forall>j \<in> set (jobs s3). target j < n + 2 + ?N" by (auto simp: lib_job_def)
  have regs: "\<forall>p<n. status (heap s1 ! p) = Pending \<longrightarrow>
      reactions (heap s1 ! p) = map (race_reg n) (idxs A ?N p)"
    using r3 by (simp add: hq race_loop_inv_def)
  have wph: "wphase n ?N s1"
    using fr [of n] tl by (simp add: wphase_def hP hq fresh_def wq_def js filter_empty_conv not_le)
  have "wrap_inv n ?N s1"
    unfolding wrap_inv_def
  proof (intro conjI allI impI ballI)
    show "length (heap s1) = n + 4 + ?N" using len3 by (simp add: s1)
    show "reactions (heap s1 ! p) = []" if "n \<le> p \<and> p < n + 4 + ?N \<and> p \<noteq> Suc n" for p
      using that hD [of p] fr [of p] by (cases "p < ?D1") (simp_all add: hq fresh_def)
    show "lib_job n ?N j" if "j \<in> set (jobs s1)" for j using that jl by (simp add: js)
    show "lib_reg n ?N r" if "p < n" "status (heap s1 ! p) = Pending" "r \<in> set (reactions (heap s1 ! p))" for p r
      using that regs by (auto simp: lib_reg_def race_reg_def dest: idxs_bound)
    show "wphase n ?N s1" by (rule wph)
  qed
  then show "race_inv n A s1" using A regs jl by (simp add: race_inv_def js)
qed

subsection \<open>The tasks under any invariant that the jobs respect\<close>

lemma inv_run:
  assumes tick: "\<And>s. I s \<Longrightarrow> I (tick s)"
    and task: "\<And>s k p v. I s \<Longrightarrow> p < n \<Longrightarrow> I (resolving k p v s)"
    and "I s"
  shows "I (run n evs s)"
  using assms(3)
proof (induction evs arbitrary: s)
  case Nil
  then show ?case by (simp add: run_def)
next
  case (Cons e evs)
  have "I (step n e s)" using Cons.prems tick task by (cases e) (simp_all add: settle_task_eq)
  from Cons.IH [OF this] show ?case by (simp add: run_Cons)
qed

lemma inv_drain:
  assumes tick: "\<And>s. I s \<Longrightarrow> I (tick s)" and "I s"
  shows "I (drain s)"
  using assms(2)
proof (induction s rule: drain.induct)
  case (1 s)
  show ?case
  proof (cases "jobs s = []")
    case True
    with 1 show ?thesis by (simp add: drain_empty)
  next
    case False
    with 1 tick show ?thesis by (simp add: drain_tick)
  qed
qed

lemma inv_run_status:
  assumes tick: "\<And>s. I s \<Longrightarrow> I (tick s) \<and> (\<forall>p<n. heap (tick s) ! p = heap s ! p)"
    and task: "\<And>s k p v. I s \<Longrightarrow> p < n \<Longrightarrow> I (resolving k p v s)"
    and len: "\<And>s. I s \<Longrightarrow> n \<le> length (heap s)"
    and "I s" and "\<forall>p<n. (p \<in> set dn \<longleftrightarrow> status (heap s ! p) \<noteq> Pending)" and p: "p < n"
  shows "status (heap (run n evs s) ! p) =
    (case map_of (settlements n dn evs) p of
       Some out \<Rightarrow> settled (kind_of out) (val_of out)
     | None \<Rightarrow> status (heap s ! p))"
  using assms(4,5)
proof (induction evs arbitrary: s dn)
  case Nil
  then show ?case by (simp add: run_def)
next
  case (Cons e evs)
  show ?case
  proof (cases e)
    case Tick
    from tick [OF Cons.prems(1)]
    have ci: "I (tick s)" and tasks: "\<forall>p<n. heap (tick s) ! p = heap s ! p" by simp_all
    from Cons.prems(2) tasks
    have ag: "\<forall>p<n. (p \<in> set dn \<longleftrightarrow> status (heap (tick s) ! p) \<noteq> Pending)" by simp
    from Cons.IH [OF ci ag] tasks p show ?thesis
      by (simp add: Tick run_Cons split: option.splits)
  next
    case (Settle q out)
    show ?thesis
    proof (cases "q < n \<and> q \<notin> set dn")
      case False
      then have "step n e s = s"
        using Cons.prems(2) by (auto simp: Settle settle_task_eq resolving_def)
      moreover from False have "settlements n dn (e # evs) = settlements n dn evs"
        by (auto simp: Settle)
      ultimately show ?thesis using Cons.IH [OF Cons.prems] by (simp add: run_Cons)
    next
      case True
      let ?s = "resolving (kind_of out) q (val_of out) s"
      from True Cons.prems(2) have pe: "status (heap s ! q) = Pending" and q: "q < n" by auto
      from len [OF Cons.prems(1)] q have qlen: "q < length (heap s)" by simp
      have ci: "I ?s" by (rule task [OF Cons.prems(1) q])
      have ag: "\<forall>r<n. (r \<in> set (q # dn) \<longleftrightarrow> status (heap ?s ! r) \<noteq> Pending)"
        using Cons.prems(2) pe qlen by (auto simp: heap_resolving)
      have st: "settlements n dn (e # evs) = (q, out) # settlements n (q # dn) evs"
        using True by (simp add: Settle)
      have run: "run n (e # evs) s = run n evs ?s"
        using True by (simp add: Settle run_Cons settle_task_eq)
      show ?thesis
      proof (cases "p = q")
        case True
        with Cons.IH [OF ci ag] settlements_done [of q "q # dn" n evs] pe qlen
        show ?thesis by (simp add: st run heap_resolving)
      next
        case False
        with Cons.IH [OF ci ag] show ?thesis
          by (simp add: st run heap_resolving split: option.splits)
      qed
    qed
  qed
qed

lemma inv_drain_tasks:
  assumes tick: "\<And>s. I s \<Longrightarrow> I (tick s) \<and> (\<forall>p<n. heap (tick s) ! p = heap s ! p)"
    and "I s" and "p < n"
  shows "heap (drain s) ! p = heap s ! p"
  using assms(2)
proof (induction s rule: drain.induct)
  case (1 s)
  show ?case
  proof (cases "jobs s = []")
    case True
    then show ?thesis by (simp add: drain_empty)
  next
    case False
    from tick [OF "1.prems"] assms(3)
    have ci: "I (tick s)" and eq: "heap (tick s) ! p = heap s ! p" by simp_all
    from "1.IH" [OF False ci] eq show ?thesis by (simp add: drain_tick [OF False])
  qed
qed

subsection \<open>The first observation wins\<close>

lemma race_tick: "race_inv n A s \<Longrightarrow> race_inv n A (tick s) \<and> (\<forall>p<n. heap (tick s) ! p = heap s ! p)"
  using race_inv_tick [of n A s "[]"] by simp

lemma race_run_winner:
  assumes "race_inv n A s"
    and "\<forall>p<n. (p \<in> set dn \<longleftrightarrow> status (heap s ! p) \<noteq> Pending)"
  shows "winner n (run n evs s) [] = winner n s (observed A (settlements n dn evs))"
  using assms
proof (induction evs arbitrary: s dn)
  case Nil
  then show ?case by (simp add: run_def)
next
  case (Cons e evs)
  show ?case
  proof (cases e)
    case Tick
    from race_inv_tick [OF Cons.prems(1)]
    have ci: "race_inv n A (tick s)" and tasks: "\<forall>p<n. heap (tick s) ! p = heap s ! p"
      and w: "\<And>rest. winner n (tick s) rest = winner n s rest"
      by simp_all
    from Cons.prems(2) tasks
    have ag: "\<forall>p<n. (p \<in> set dn \<longleftrightarrow> status (heap (tick s) ! p) \<noteq> Pending)" by simp
    from Cons.IH [OF ci ag] w show ?thesis by (simp add: Tick run_Cons)
  next
    case (Settle q out)
    show ?thesis
    proof (cases "q < n \<and> q \<notin> set dn")
      case False
      then have "step n e s = s"
        using Cons.prems(2) by (auto simp: Settle settle_task_eq resolving_def)
      moreover from False have "settlements n dn (e # evs) = settlements n dn evs"
        by (auto simp: Settle)
      ultimately show ?thesis using Cons.IH [OF Cons.prems] by (simp add: run_Cons)
    next
      case True
      let ?s = "resolving (kind_of out) q (val_of out) s"
      from True Cons.prems(2) have pe: "status (heap s ! q) = Pending" and q: "q < n" by auto
      from Cons.prems(1) have "length (heap s) = n + 4 + length A"
        by (simp add: race_inv_def wrap_inv_def)
      with q have qlen: "q < length (heap s)" by simp
      note rt = race_inv_task [OF Cons.prems(1) q, of "kind_of out" "val_of out"]
      have ag: "\<forall>r<n. (r \<in> set (q # dn) \<longleftrightarrow> status (heap ?s ! r) \<noteq> Pending)"
        using Cons.prems(2) pe qlen by (auto simp: heap_resolving)
      have "winner n ?s rest = winner n s (replicate (count_list A q) out @ rest)" for rest
        unfolding winner_def rt(2) [OF pe] rt(3) mk_kind_val append_assoc by (rule refl)
      with Cons.IH [OF rt(1) ag] show ?thesis
        using True by (simp add: Settle run_Cons settle_task_eq observed_Cons)
    qed
  qed
qed

lemma race_drain_winner: "race_inv n A s \<Longrightarrow> winner n (drain s) [] = winner n s []"
proof (induction s rule: drain.induct)
  case (1 s)
  show ?case
  proof (cases "jobs s = []")
    case True
    then show ?thesis by (simp add: drain_empty)
  next
    case False
    from race_inv_tick [OF "1.prems", of "[]"]
    have ci: "race_inv n A (tick s)" and w: "winner n (tick s) [] = winner n s []" by simp_all
    from "1.IH" [OF False ci] w show ?thesis by (simp add: drain_tick [OF False])
  qed
qed

text \<open>With an empty queue the wrapper has caught up with the library.\<close>

lemma wrap_quiet:
  assumes "wrap_inv n N s" and "jobs s = []"
  shows "status (heap s ! n) = status (heap s ! Suc n)"
  using assms by (cases "status (heap s ! Suc n)") (auto simp: wrap_inv_def wphase_def wq_def wregs_def)

lemma race_final:
  fixes pre post :: "event list"
  assumes A: "\<forall>q \<in> set A. q < n"
  defines "s0 \<equiv> run n pre (world n)"
  defines "f \<equiv> drain (run n post (snd (getFastestPromise A s0)))"
  shows "fst (getFastestPromise A s0) = n"
    and "status (heap f ! n) = first_settled (at_call A s0 @ observed A (settlements n (settled_tasks n s0) post))"
    and "status (heap f ! n) = status (heap f ! Suc n)"
proof -
  let ?s1 = "snd (getFastestPromise A s0)"
  have idle: "idle n s0" unfolding s0_def by (intro idle_run idle_world)
  note gi = getFastestPromise_inv [OF idle A]
  show "fst (getFastestPromise A s0) = n" by (rule gi(1))
  have tick: "\<And>s. race_inv n A s \<Longrightarrow> race_inv n A (tick s)" using race_tick by blast
  have ri: "race_inv n A (run n post ?s1)"
    by (rule inv_run [where I = "race_inv n A", OF tick race_inv_task(1) gi(2)])
  have rf: "race_inv n A f"
    unfolding f_def by (rule inv_drain [where I = "race_inv n A", OF tick ri])
  have jf: "jobs f = []" by (simp add: f_def)
  from rf have wi: "wrap_inv n (length A) f" by (simp add: race_inv_def)
  show eq: "status (heap f ! n) = status (heap f ! Suc n)" by (rule wrap_quiet [OF wi jf])
  have ag: "\<forall>p<n. (p \<in> set (settled_tasks n s0) \<longleftrightarrow> status (heap ?s1 ! p) \<noteq> Pending)"
    using gi(5) by (simp add: settled_tasks_def)
  have "winner n f [] = winner n (run n post ?s1) []"
    unfolding f_def by (rule race_drain_winner [OF ri])
  also have "\<dots> = winner n ?s1 (observed A (settlements n (settled_tasks n s0) post))"
    by (rule race_run_winner [OF gi(2) ag])
  also have "\<dots> = first_settled (at_call A s0 @ observed A (settlements n (settled_tasks n s0) post))"
    by (simp add: winner_def gi(3,4))
  finally have "winner n f [] =
      first_settled (at_call A s0 @ observed A (settlements n (settled_tasks n s0) post))" .
  moreover have "winner n f [] = status (heap f ! Suc n)"
    by (cases "status (heap f ! Suc n)") (simp_all add: winner_def race_q_def jf List.map_filter_def)
  ultimately show "status (heap f ! n) =
      first_settled (at_call A s0 @ observed A (settlements n (settled_tasks n s0) post))"
    by (simp add: eq)
qed

section \<open>The invariant of Promise.all\<close>

subsection \<open>Promise.all along a schedule\<close>

lemma all_reg_obs:
  "List.map_filter (all_obs n) (map (job_of k v \<circ> all_reg n) is) = replicate (length is) (mk k v)"
  by (induction "is") (cases k; simp add: List.map_filter_def all_reg_def)+

lemma all_reg_target: "target (job_of k v (all_reg n i)) = n + 2 + i"
  by (cases k) (simp_all add: all_reg_def)

lemma all_phase_cong:
  assumes "status (heap s' ! Suc n) = status (heap s ! Suc n)"
    and "all_values s' = all_values s" and "remainingElementsCount s' = remainingElementsCount s"
  shows "all_phase n s' = all_phase n s"
  unfolding all_phase_def assms by (rule refl)

lemma verdict_cong:
  assumes "status (heap s' ! Suc n) = status (heap s ! Suc n)" and "all_q n s' = all_q n s"
  shows "verdict n s' rest = verdict n s rest"
  unfolding verdict_def assms by (rule refl)

lemma first_failure_Ok [simp]: "first_failure (replicate m (Ok v) @ outs) = first_failure outs"
  by (induction m) simp_all

lemma distinct_idxs: "distinct (idxs A m p)"
  by (simp add: idxs_def)

lemma all_inv_task:
  assumes inv: "all_inv n A s" and p: "p < n"
  shows "all_inv n A (resolving k p v s)"
    and "status (heap s ! p) = Pending \<Longrightarrow>
      all_q n (resolving k p v s) = all_q n s @ replicate (count_list A p) (mk k v)"
    and "status (heap (resolving k p v s) ! Suc n) = status (heap s ! Suc n)"
proof -
  let ?s = "resolving k p v s" and ?N = "length A"
  from inv have wi: "wrap_inv n ?N s" by (simp add: all_inv_def)
  then have len: "length (heap s) = n + 4 + ?N" by (simp add: wrap_inv_def)
  with p have plen: "p < length (heap s)" by simp
  show P: "status (heap ?s ! Suc n) = status (heap s ! Suc n)" using p by (simp add: heap_resolving)
  show "all_q n ?s = all_q n s @ replicate (count_list A p) (mk k v)"
    if "status (heap s ! p) = Pending"
    using that inv p plen
    by (simp add: all_q_def jobs_resolving qobs_append all_inv_def all_reg_obs length_idxs)
  show "all_inv n A ?s"
  proof (cases "status (heap s ! p) = Pending")
    case False
    then show ?thesis using inv by (simp add: resolving_def)
  next
    case True
    let ?new = "map (job_of k v \<circ> all_reg n) (idxs A ?N p)"
    from inv True p have regs: "reactions (heap s ! p) = map (all_reg n) (idxs A ?N p)"
      by (simp add: all_inv_def)
    have jobs: "jobs ?s = jobs s @ ?new"
      using True plen regs by (simp add: jobs_resolving)
    have "filter (\<lambda>j. target j < n + 2 + ?N) ?new = ?new"
      by (auto simp: filter_id_conv all_reg_target dest: idxs_bound)
    then have lq: "lq n ?N ?s = lq n ?N s @ ?new" by (simp add: lq_def jobs)
    have tn: "map target ?new = map (\<lambda>i. n + 2 + i) (idxs A ?N p)"
      by (simp add: all_reg_target)
    have hp: "status (heap ?s ! p) = settled k v" using True plen by (simp add: heap_resolving)
    have hq: "\<And>q. q \<noteq> p \<Longrightarrow> heap ?s ! q = heap s ! q" by (simp add: heap_resolving)
    from inv have old: "\<forall>j \<in> set (lq n ?N s). all_job n A s j" by (simp add: all_inv_def)
    have oldp: "A ! i \<noteq> p" if "n + 2 + i \<in> set (map target (lq n ?N s))" "i < ?N" for i
    proof -
      from that obtain j where j: "j \<in> set (lq n ?N s)" and t: "target j = n + 2 + i" by auto
      from old j have "all_job n A s j" by simp
      with t have "status (heap s ! (A ! i)) \<noteq> Pending" by (auto simp: all_job_def)
      with True show ?thesis by auto
    qed
    have q: "queued n ?N ?s i \<longleftrightarrow> queued n ?N s i \<or> A ! i = p" if "i < ?N" for i
      unfolding queued_def lq map_append tn using that by (auto simp: idxs_def)
    have fd: "fdone n A ?s i \<longleftrightarrow> fdone n A s i" if "i < ?N" for i
    proof (cases "A ! i = p")
      case True
      with \<open>status (heap s ! p) = Pending\<close> q [OF that] show ?thesis by (simp add: fdone_def)
    next
      case False
      with q [OF that] show ?thesis by (simp add: fdone_def hq)
    qed
    have 1: "\<forall>j \<in> set (lq n ?N ?s). all_job n A ?s j"
    proof
      fix j assume "j \<in> set (lq n ?N ?s)"
      then consider "j \<in> set (lq n ?N s)" | i where "i \<in> set (idxs A ?N p)" "j = job_of k v (all_reg n i)"
        by (auto simp: lq)
      then show "all_job n A ?s j"
      proof cases
        case 1
        with old have "all_job n A s j" by simp
        then obtain i x where i: "i < ?N"
          and c: "j = Job Fulfill (Some (ResolveElement i (Suc n))) (n + 2 + i) x \<and>
             status (heap s ! (A ! i)) = Fulfilled x \<or>
           j = Job Reject (Some (CallReject (Suc n))) (n + 2 + i) x \<and>
             status (heap s ! (A ! i)) = Rejected x"
          by (auto simp: all_job_def)
        from c True have "A ! i \<noteq> p" by auto
        with c i show ?thesis unfolding all_job_def by (auto simp: hq)
      next
        case 2
        from idxs_bound [OF 2(1)] have "i < ?N" "A ! i = p" by simp_all
        with 2(2) hp show ?thesis unfolding all_job_def
          by (cases k) (auto simp: all_reg_def)
      qed
    qed
    have 2: "distinct (map target (lq n ?N ?s))"
    proof -
      have "distinct (map (\<lambda>i. n + 2 + i) (idxs A ?N p))"
        by (simp add: distinct_map distinct_idxs inj_on_def)
      moreover have "set (map target (lq n ?N s)) \<inter> set (map (\<lambda>i. n + 2 + i) (idxs A ?N p)) = {}"
      proof -
        have False if "i \<in> set (idxs A ?N p)" "n + 2 + i \<in> set (map target (lq n ?N s))" for i
          using oldp [OF that(2)] idxs_bound [OF that(1)] by simp
        then show ?thesis by (auto simp: image_iff) (metis rev_image_eqI)
      qed
      moreover from inv have "distinct (map target (lq n ?N s))" by (simp add: all_inv_def)
      ultimately show ?thesis unfolding lq map_append tn by (simp only: distinct_append)
    qed
    have 3: "\<forall>i < ?N. fdone n A ?s i \<longrightarrow> status (heap ?s ! (A ! i)) = Fulfilled (all_values ?s ! i)"
    proof (intro allI impI)
      fix i assume i: "i < ?N" and f: "fdone n A ?s i"
      with fd have f0: "fdone n A s i" by simp
      with True have "A ! i \<noteq> p" by (auto simp: fdone_def)
      with inv i f0 show "status (heap ?s ! (A ! i)) = Fulfilled (all_values ?s ! i)"
        by (simp add: all_inv_def hq)
    qed
    have "{i. i < ?N \<and> fdone n A ?s i} = {i. i < ?N \<and> fdone n A s i}" using fd by auto
    then have 4: "remainingElementsCount ?s + card {i. i < ?N \<and> fdone n A ?s i} = ?N"
      using inv by (simp add: all_inv_def)
    have 5: "all_phase n ?s" using inv all_phase_cong [of ?s n s] P by (simp add: all_inv_def)
    have 6: "\<forall>q<n. status (heap ?s ! q) = Pending \<longrightarrow>
        reactions (heap ?s ! q) = map (all_reg n) (idxs A ?N q)"
      using inv hp by (auto simp: all_inv_def heap_resolving)
    from 1 2 3 4 5 6 inv wrap_inv_task [OF wi p] show ?thesis by (simp add: all_inv_def)
  qed
qed

lemma wrap_head_job:
  assumes inv: "wrap_inv n N s" and j: "jobs s = j # js" and t: "n + 2 + N \<le> target j"
  shows "\<exists>v. j = Job Fulfill (Some (CallResolve n)) (n + 2 + N) v \<or> j = Job Fulfill None (n + 3 + N) v \<or>
    j = Job Reject None (n + 2 + N) v \<or> j = Job Reject (Some (CallReject n)) (n + 3 + N) v"
proof -
  from inv have ph: "wphase n N s" by (simp add: wrap_inv_def)
  have wqs: "wq n N s = j # wq n N (s\<lparr>jobs := js\<rparr>)" using t by (simp add: wq_def j)
  from ph show ?thesis unfolding wphase_def wqs
    by (cases "status (heap s ! Suc n)") (auto simp: wregs_def)
qed

lemma card_below:
  assumes "i < N" and "\<not> P i"
  shows "card {k. k < N \<and> P k} < (N::nat)"
proof -
  have "{k. k < N \<and> P k} \<subset> {..<N}" using assms by auto
  from psubset_card_mono [OF _ this] show ?thesis by simp
qed

lemma card_full:
  assumes "card {k. k < N \<and> P k} = (N::nat)" and "i < N"
  shows "P i"
  using card_below [OF assms(2), of P] assms(1) by auto

text \<open>What the queue, the values and the count must satisfy after a job, given the invariant before it.\<close>

lemma all_inv_step:
  assumes inv: "all_inv n A s" and w: "wrap_inv n (length A) s'"
    and tasks: "\<forall>p<n. heap s' ! p = heap s ! p"
    and lq: "lq n (length A) s = js0 @ lq n (length A) s'"
    and len: "length (all_values s') = length A"
    and fd: "\<forall>i < length A. fdone n A s' i \<longrightarrow> status (heap s ! (A ! i)) = Fulfilled (all_values s' ! i)"
    and cnt: "remainingElementsCount s' + card {i. i < length A \<and> fdone n A s' i} = length A"
    and ph: "all_phase n s'"
  shows "all_inv n A s'"
proof -
  let ?N = "length A"
  from inv have A: "\<forall>q \<in> set A. q < n" by (simp add: all_inv_def)
  then have Ai: "\<And>i. i < ?N \<Longrightarrow> heap s' ! (A ! i) = heap s ! (A ! i)" using tasks by simp
  have 1: "\<forall>j \<in> set (lq n ?N s'). all_job n A s' j"
  proof
    fix j assume "j \<in> set (lq n ?N s')"
    then have "j \<in> set (lq n ?N s)" by (simp add: lq)
    with inv have "all_job n A s j" by (simp add: all_inv_def)
    then show "all_job n A s' j" unfolding all_job_def using Ai by auto
  qed
  from inv have "distinct (map target (lq n ?N s))" by (simp add: all_inv_def)
  then have 2: "distinct (map target (lq n ?N s'))" by (simp add: lq)
  have 3: "\<forall>p<n. status (heap s' ! p) = Pending \<longrightarrow>
      reactions (heap s' ! p) = map (all_reg n) (idxs A ?N p)"
    using inv tasks by (simp add: all_inv_def)
  have 4: "\<forall>i < ?N. fdone n A s' i \<longrightarrow> status (heap s' ! (A ! i)) = Fulfilled (all_values s' ! i)"
    using fd Ai by simp
  from w A len 1 2 3 4 cnt ph show ?thesis by (simp add: all_inv_def)
qed

lemma all_inv_tick:
  assumes inv: "all_inv n A s"
  shows "all_inv n A (tick s) \<and> verdict n (tick s) rest = verdict n s rest \<and>
    (\<forall>p<n. heap (tick s) ! p = heap s ! p)"
proof (cases "jobs s")
  case Nil
  then show ?thesis using inv by (simp add: tick_def)
next
  case (Cons j js)
  let ?N = "length A"
  let ?s = "s\<lparr>jobs := js\<rparr>"
  have t: "tick s = run_job j ?s" by (simp add: tick_def Cons)
  from inv have wi: "wrap_inv n ?N s" and A: "\<forall>q \<in> set A. q < n"
    and lenv: "length (all_values s) = ?N"
    and jf: "\<forall>j \<in> set (lq n ?N s). all_job n A s j"
    and dist: "distinct (map target (lq n ?N s))"
    and vals: "\<forall>i < ?N. fdone n A s i \<longrightarrow> status (heap s ! (A ! i)) = Fulfilled (all_values s ! i)"
    and cnt: "remainingElementsCount s + card {i. i < ?N \<and> fdone n A s i} = ?N"
    and aph: "all_phase n s"
    by (simp_all add: all_inv_def)
  from wi have len: "length (heap s) = n + 4 + ?N" and ph: "wphase n ?N s"
    by (simp_all add: wrap_inv_def)
  show ?thesis
  proof (cases "target j < n + 2 + ?N")
    case False
    from wrap_tick_wrapper [OF wi Cons] False
    have w': "wrap_inv n ?N (tick s)" and js': "jobs (tick s) = js"
      and h: "\<And>q. q \<noteq> n \<Longrightarrow> q < n + 2 + ?N \<Longrightarrow> heap (tick s) ! q = heap s ! q"
      and av: "all_values (tick s) = all_values s"
      and rc: "remainingElementsCount (tick s) = remainingElementsCount s"
      by (simp_all add: t)
    from wrap_head_job [OF wi Cons] False have "all_obs n j = None" by auto
    then have q: "all_q n (tick s) = all_q n s" by (simp add: all_q_def js' Cons List.map_filter_def)
    have lq: "lq n ?N (tick s) = lq n ?N s" using False by (simp add: lq_def js' Cons)
    have tasks: "\<forall>p<n. heap (tick s) ! p = heap s ! p" by (simp add: h)
    have fdq: "\<And>i. i < ?N \<Longrightarrow> fdone n A (tick s) i = fdone n A s i"
      using A tasks by (simp add: fdone_def queued_def lq)
    then have set: "{i. i < ?N \<and> fdone n A (tick s) i} = {i. i < ?N \<and> fdone n A s i}" by auto
    have "all_phase n (tick s) = all_phase n s"
      by (intro all_phase_cong) (simp_all add: h av rc)
    with aph have ph': "all_phase n (tick s)" by simp
    have "all_inv n A (tick s)"
      using vals cnt fdq by (intro all_inv_step [OF inv w' tasks, of "[]"]) (simp_all add: lq av rc lenv set ph')
    moreover have "verdict n (tick s) rest = verdict n s rest"
      by (intro verdict_cong) (simp_all add: h q)
    ultimately show ?thesis using tasks by simp
  next
    case True
    let ?L = "lq n ?N ?s"
    have L: "lq n ?N s = j # ?L" using True by (simp add: lq_def Cons)
    from dist have fresh: "target j \<notin> set (map target ?L)" by (simp add: L)
    from jf have "all_job n A s j" by (simp add: L)
    then obtain i v where i: "i < ?N"
      and c: "j = Job Fulfill (Some (ResolveElement i (Suc n))) (n + 2 + i) v \<and>
             status (heap s ! (A ! i)) = Fulfilled v \<or>
           j = Job Reject (Some (CallReject (Suc n))) (n + 2 + i) v \<and>
             status (heap s ! (A ! i)) = Rejected v"
      by (auto simp: all_job_def)
    from c have tj: "target j = n + 2 + i" by auto
    have qi: "queued n ?N s i" by (simp add: queued_def L tj)
    then have nf: "\<not> fdone n A s i" by (simp add: fdone_def)
    from card_below [OF i, of "fdone n A s", OF nf] cnt
    have rpos: "0 < remainingElementsCount s" by simp
    with aph have notF: "\<And>x. status (heap s ! Suc n) \<noteq> Fulfilled x"
      by (auto simp: all_phase_def)
    have w': "wrap_inv n ?N (tick s)" using wrap_tick_lib [OF wi Cons True] by (simp add: t)
    have rd: "reactions (heap s ! (n + 2 + i)) = []" using wi i by (simp add: wrap_inv_def)
    from c show ?thesis
    proof (elim disjE conjE)
      assume jj: "j = Job Fulfill (Some (ResolveElement i (Suc n))) (n + 2 + i) v"
        and st: "status (heap s ! (A ! i)) = Fulfilled v"
      let ?av = "(all_values s)[i := v]" and ?r = "remainingElementsCount s - 1"
      let ?s2 = "s\<lparr>jobs := js, all_values := ?av, remainingElementsCount := ?r\<rparr>"
      let ?fire = "?r = 0 \<and> status (heap s ! Suc n) = Pending"
      have s': "tick s = resolve (n + 2 + i) Undefined (if ?r = 0 then resolve (Suc n) (Arr ?av) ?s2 else ?s2)"
        by (simp add: t jj Let_def)
      have av: "all_values (tick s) = ?av" and rc: "remainingElementsCount (tick s) = ?r"
        by (simp_all add: s')
      have h: "\<And>q. q \<noteq> Suc n \<Longrightarrow> q \<noteq> n + 2 + i \<Longrightarrow> heap (tick s) ! q = heap s ! q"
        by (simp add: s' heap_resolving)
      have tasks: "\<forall>p<n. heap (tick s) ! p = heap s ! p" by (simp add: h)
      have hP: "status (heap (tick s) ! Suc n) =
          (if ?fire then Fulfilled (Arr ?av) else status (heap s ! Suc n))"
        using len by (simp add: s' heap_resolving)
      have js': "jobs (tick s) = js @ (if ?fire then map (job_of Fulfill (Arr ?av)) (wregs n ?N) else [])"
        using len rd ph by (auto simp: s' jobs_resolving heap_resolving wphase_def)
      have lq: "lq n ?N (tick s) = ?L" by (simp add: lq_def js' wregs_def)
      have q: "all_q n s = Ok v # all_q n (tick s)"
        by (simp add: all_q_def js' Cons jj qobs_append race_obs_wregs List.map_filter_def wregs_def)
      have qd: "queued n ?N (tick s) k \<longleftrightarrow> queued n ?N s k \<and> k \<noteq> i" for k
        using fresh by (auto simp: queued_def lq L tj)
      have fdq: "fdone n A (tick s) k \<longleftrightarrow> fdone n A s k \<or> k = i" if "k < ?N" for k
        using that A tasks st qi by (auto simp: fdone_def qd)
      then have set: "{k. k < ?N \<and> fdone n A (tick s) k} = insert i {k. k < ?N \<and> fdone n A s k}"
        using i by auto
      have "card {k. k < ?N \<and> fdone n A (tick s) k} = Suc (card {k. k < ?N \<and> fdone n A s k})"
        unfolding set using nf by (subst card_insert_disjoint) simp_all
      with cnt rpos have cnt': "remainingElementsCount (tick s) + card {k. k < ?N \<and> fdone n A (tick s) k} = ?N"
        by (simp add: rc)
      have vals': "\<forall>k < ?N. fdone n A (tick s) k \<longrightarrow> status (heap s ! (A ! k)) = Fulfilled (all_values (tick s) ! k)"
      proof (intro allI impI)
        fix k assume k: "k < ?N" and f: "fdone n A (tick s) k"
        show "status (heap s ! (A ! k)) = Fulfilled (all_values (tick s) ! k)"
        proof (cases "k = i")
          case True
          with st i lenv show ?thesis by (simp add: av)
        next
          case False
          with f fdq [OF k] vals k show ?thesis by (simp add: av)
        qed
      qed
      have ph': "all_phase n (tick s)"
        unfolding all_phase_def hP av rc using notF
        by (cases "status (heap s ! Suc n)") auto
      have "all_inv n A (tick s)"
        by (rule all_inv_step [OF inv w' tasks, of "[j]"]) (simp_all add: lq L av lenv vals' cnt' ph')
      moreover have "verdict n (tick s) rest = verdict n s rest"
        unfolding verdict_def hP q using notF by (cases "status (heap s ! Suc n)") auto
      ultimately show ?thesis using tasks by simp
    next
      assume jj: "j = Job Reject (Some (CallReject (Suc n))) (n + 2 + i) v"
        and st: "status (heap s ! (A ! i)) = Rejected v"
      have s': "tick s = resolve (n + 2 + i) Undefined (reject (Suc n) v ?s)"
        by (simp add: t jj)
      have av: "all_values (tick s) = all_values s"
        and rc: "remainingElementsCount (tick s) = remainingElementsCount s"
        by (simp_all add: s')
      have h: "\<And>q. q \<noteq> Suc n \<Longrightarrow> q \<noteq> n + 2 + i \<Longrightarrow> heap (tick s) ! q = heap s ! q"
        by (simp add: s' heap_resolving)
      have tasks: "\<forall>p<n. heap (tick s) ! p = heap s ! p" by (simp add: h)
      have hP: "status (heap (tick s) ! Suc n) =
          (if status (heap s ! Suc n) = Pending then Rejected v else status (heap s ! Suc n))"
        using len by (simp add: s' heap_resolving)
      have js': "jobs (tick s) = js @ (if status (heap s ! Suc n) = Pending
          then map (job_of Reject v) (wregs n ?N) else [])"
        using len rd ph by (auto simp: s' jobs_resolving heap_resolving wphase_def)
      have lq: "lq n ?N (tick s) = ?L" by (simp add: lq_def js' wregs_def)
      have q: "all_q n s = Fail v # all_q n (tick s)"
        by (simp add: all_q_def js' Cons jj qobs_append List.map_filter_def wregs_def)
      have qd: "queued n ?N (tick s) k \<longleftrightarrow> queued n ?N s k \<and> k \<noteq> i" for k
        using fresh by (auto simp: queued_def lq L tj)
      have fdq: "fdone n A (tick s) k \<longleftrightarrow> fdone n A s k" if "k < ?N" for k
        using that A tasks st qi by (auto simp: fdone_def qd)
      then have set: "{k. k < ?N \<and> fdone n A (tick s) k} = {k. k < ?N \<and> fdone n A s k}"
        by auto
      have ph': "all_phase n (tick s)"
        using aph unfolding all_phase_def hP av rc
        by (cases "status (heap s ! Suc n)") auto
      have "all_inv n A (tick s)"
        using vals cnt fdq
        by (intro all_inv_step [OF inv w' tasks, of "[j]"]) (simp_all add: lq L av rc lenv set ph')
      moreover have "verdict n (tick s) rest = verdict n s rest"
        unfolding verdict_def hP q using notF by (cases "status (heap s ! Suc n)") auto
      ultimately show ?thesis using tasks by simp
    qed
  qed
qed

subsection \<open>The call of processAllPromises\<close>

lemma all_loop_step:
  assumes inv: "all_loop_inv n A B s" and p: "p < n" and B: "length B < length A"
    and Ap: "A ! length B = p" and Bn: "\<forall>q \<in> set B. q < n" and AB: "take (length B) A = B"
  defines "s' \<equiv> all_each (Suc n) (length B) p s"
  shows "all_loop_inv n A (B @ [p]) s' \<and> (\<forall>q<n. status (heap s' ! q) = status (heap s ! q))"
proof -
  let ?m = "length B"
  let ?l = "n + 2 + ?m"
  from inv have len: "length (heap s) = ?l" by (simp add: all_loop_inv_def)
  with p have pl: "p < length (heap s)" by simp
  have hs: "heap s' = (case status (heap s ! p) of
       Pending \<Rightarrow> (heap s @ [fresh])[p := (heap s ! p)\<lparr>reactions := reactions (heap s ! p) @ [all_reg n ?m]\<rparr>]
     | _ \<Rightarrow> heap s @ [fresh])"
    using pl by (simp add: s'_def all_each_def then_promise_snd len all_reg_def Let_def split: pstate.splits)
  have js: "jobs s' = jobs s @ (case status (heap s ! p) of
       Pending \<Rightarrow> []
     | Fulfilled v \<Rightarrow> [Job Fulfill (Some (ResolveElement ?m (Suc n))) ?l v]
     | Rejected e \<Rightarrow> [Job Reject (Some (CallReject (Suc n))) ?l e])"
    using pl by (simp add: s'_def all_each_def then_promise_snd len Let_def split: pstate.splits)
  have av: "all_values s' = all_values s @ [Undefined]"
    using pl by (simp add: s'_def all_each_def then_promise_snd Let_def split: pstate.splits)
  have rc: "remainingElementsCount s' = remainingElementsCount s + 1"
    using pl by (simp add: s'_def all_each_def then_promise_snd Let_def split: pstate.splits)
  have hl: "length (heap s') = n + 2 + length (B @ [p])"
    using len by (simp add: hs split: pstate.splits)
  have hq: "\<And>q. q \<noteq> p \<Longrightarrow> q < ?l \<Longrightarrow> heap s' ! q = heap s ! q"
    using len by (simp add: hs nth_append split: pstate.splits)
  have hnew: "heap s' ! ?l = fresh"
    using len p by (simp add: hs nth_append split: pstate.splits)
  have hp: "heap s' ! p = (case status (heap s ! p) of
       Pending \<Rightarrow> (heap s ! p)\<lparr>reactions := reactions (heap s ! p) @ [all_reg n ?m]\<rparr>
     | _ \<Rightarrow> heap s ! p)"
    using pl by (simp add: hs nth_append split: pstate.splits)
  have st: "\<forall>q<n. status (heap s' ! q) = status (heap s ! q)"
  proof (intro allI impI)
    fix q assume "q < n"
    then show "status (heap s' ! q) = status (heap s ! q)"
      by (cases "q = p") (simp_all add: hp hq split: pstate.splits)
  qed
  have Ai: "A ! i < n" if "i \<le> ?m" for i
  proof (cases "i = ?m")
    case True
    with Ap p show ?thesis by simp
  next
    case False
    with that have i: "i < ?m" by simp
    then have "A ! i = B ! i" using AB by (metis nth_take)
    with Bn i show ?thesis by simp
  qed
  have 2: "\<forall>q. n \<le> q \<and> q < n + 2 + length (B @ [p]) \<longrightarrow> heap s' ! q = fresh"
  proof (intro allI impI)
    fix q assume q: "n \<le> q \<and> q < n + 2 + length (B @ [p])"
    show "heap s' ! q = fresh"
    proof (cases "q < ?l")
      case True
      with q p inv show ?thesis by (simp add: hq all_loop_inv_def)
    next
      case False
      with q have "q = ?l" by simp
      with hnew show ?thesis by simp
    qed
  qed
  have 3: "\<forall>q<n. status (heap s' ! q) = Pending \<longrightarrow>
      reactions (heap s' ! q) = map (all_reg n) (idxs A (length (B @ [p])) q)"
  proof (intro allI impI)
    fix q assume q: "q < n" and pe: "status (heap s' ! q) = Pending"
    with st have qp: "status (heap s ! q) = Pending" by simp
    with inv q have old: "reactions (heap s ! q) = map (all_reg n) (idxs A ?m q)"
      by (simp add: all_loop_inv_def)
    show "reactions (heap s' ! q) = map (all_reg n) (idxs A (length (B @ [p])) q)"
    proof (cases "q = p")
      case True
      with qp old Ap show ?thesis by (simp add: hp idxs_Suc)
    next
      case False
      with q old Ap show ?thesis by (simp add: hq idxs_Suc)
    qed
  qed
  have keep: "all_job n A s' j" if "all_job n A s j" "target j < ?l" for j
  proof -
    from that obtain i x where i: "i < ?m"
      and c: "j = Job Fulfill (Some (ResolveElement i (Suc n))) (n + 2 + i) x \<and>
             status (heap s ! (A ! i)) = Fulfilled x \<or>
           j = Job Reject (Some (CallReject (Suc n))) (n + 2 + i) x \<and>
             status (heap s ! (A ! i)) = Rejected x"
      by (auto simp: all_job_def)
    from Ai [of i] i st have "status (heap s' ! (A ! i)) = status (heap s ! (A ! i))" by simp
    with c i B show ?thesis unfolding all_job_def by auto
  qed
  have stp: "status (heap s' ! (A ! ?m)) = status (heap s ! p)" using st p Ap by simp
  have 4: "\<forall>j \<in> set (jobs s'). target j < n + 2 + length (B @ [p]) \<and> all_job n A s' j"
  proof
    fix j assume "j \<in> set (jobs s')"
    then consider "j \<in> set (jobs s)"
      | v where "status (heap s ! p) = Fulfilled v" "j = Job Fulfill (Some (ResolveElement ?m (Suc n))) ?l v"
      | e where "status (heap s ! p) = Rejected e" "j = Job Reject (Some (CallReject (Suc n))) ?l e"
      unfolding js by (cases "status (heap s ! p)") auto
    then show "target j < n + 2 + length (B @ [p]) \<and> all_job n A s' j"
    proof cases
      case 1
      with inv have "target j < ?l" "all_job n A s j" by (simp_all add: all_loop_inv_def)
      with keep show ?thesis by simp
    next
      case 2
      with B stp show ?thesis unfolding all_job_def by auto
    next
      case 3
      with B stp show ?thesis unfolding all_job_def by auto
    qed
  qed
  have 5: "distinct (map target (jobs s'))"
  proof -
    from inv have d: "distinct (map target (jobs s))" and "\<forall>j \<in> set (jobs s). target j < ?l"
      by (simp_all add: all_loop_inv_def)
    then have "?l \<notin> set (map target (jobs s))" by auto
    with d show ?thesis unfolding js by (cases "status (heap s ! p)") simp_all
  qed
  have 6: "\<forall>i < length (B @ [p]). status (heap s' ! (A ! i)) \<noteq> Pending \<longrightarrow>
      n + 2 + i \<in> set (map target (jobs s'))"
  proof (intro allI impI)
    fix i assume i: "i < length (B @ [p])" and ne: "status (heap s' ! (A ! i)) \<noteq> Pending"
    show "n + 2 + i \<in> set (map target (jobs s'))"
    proof (cases "i = ?m")
      case True
      with ne stp show ?thesis unfolding js by (cases "status (heap s ! p)") simp_all
    next
      case False
      with i have im: "i < ?m" by simp
      from Ai [of i] im st ne have "status (heap s ! (A ! i)) \<noteq> Pending" by simp
      with inv im have "n + 2 + i \<in> set (map target (jobs s))" by (simp add: all_loop_inv_def)
      then show ?thesis unfolding js by simp
    qed
  qed
  have "at_call B s' = at_call B s" using Bn st by (intro at_call_cong) auto
  then have ac: "at_call (B @ [p]) s' = at_call B s @ obs_of (status (heap s ! p))"
    using st p by (simp add: at_call_snoc)
  have 7: "all_q n s' = at_call (B @ [p]) s'"
    using inv unfolding ac
    by (cases "status (heap s ! p)") (simp_all add: js all_q_def all_loop_inv_def qobs_append List.map_filter_def)
  have 8: "all_values s' = replicate (length (B @ [p])) Undefined"
    using inv by (simp add: av all_loop_inv_def replicate_append_same)
  have 9: "remainingElementsCount s' = Suc (length (B @ [p]))"
    using inv by (simp add: rc all_loop_inv_def)
  from hl 2 3 4 5 6 7 8 9 st show ?thesis unfolding all_loop_inv_def by blast
qed

lemma all_loop_fold:
  assumes "all_loop_inv n A B s" and "A = B @ C" and "\<forall>q \<in> set A. q < n"
  shows "all_loop_inv n A A (all_loop (Suc n) (length B) C s) \<and>
    (\<forall>q<n. status (heap (all_loop (Suc n) (length B) C s) ! q) = status (heap s ! q))"
  using assms
proof (induction C arbitrary: B s)
  case Nil
  then show ?case by simp
next
  case (Cons p C)
  from Cons.prems have p: "p < n" and B: "length B < length A" and Bn: "\<forall>q \<in> set B. q < n"
    and Ap: "A ! length B = p" and AB: "take (length B) A = B"
    by simp_all
  from all_loop_step [OF Cons.prems(1) p B Ap Bn AB]
  have 1: "all_loop_inv n A (B @ [p]) (all_each (Suc n) (length B) p s)"
    and 2: "\<forall>q<n. status (heap (all_each (Suc n) (length B) p s) ! q) = status (heap s ! q)"
    by simp_all
  from Cons.prems have "A = (B @ [p]) @ C" by simp
  from Cons.IH [OF 1 this Cons.prems(3)] 2 show ?case by simp
qed

lemma all_job_lib: "all_job n A s j \<Longrightarrow> lib_job n (length A) j"
  by (auto simp: all_job_def lib_job_def)

lemma all_reg_lib: "i < N \<Longrightarrow> lib_reg n N (all_reg n i)"
  by (simp add: lib_reg_def all_reg_def)

lemma Promise_all_fst: "fst (Promise_all A s) = length (heap s)"
  by (simp add: Promise_all_def new_promise_def Let_def)

text \<open>The two registrations of the wrappers, \<^verbatim>\<open>then\<close> and \<^verbatim>\<open>catch\<close> on the promise of the library.\<close>

lemma wrap_register:
  fixes n :: pid
  assumes len: "length (heap t) = D" and P: "q < D"
  defines "u \<equiv> snd (catch_promise q (Some (CallReject n))
      (snd (then_promise q (Some (CallResolve n)) None t)))"
  shows "heap u =
      (case status (heap t ! q) of
         Pending \<Rightarrow> (heap t)[q := (heap t ! q)\<lparr>reactions := reactions (heap t ! q) @
            [Reg (Some (CallResolve n)) None D, Reg None (Some (CallReject n)) (Suc D)]\<rparr>]
       | _ \<Rightarrow> heap t) @ [fresh, fresh]"
    and "jobs u = jobs t @
      (case status (heap t ! q) of
         Pending \<Rightarrow> []
       | Fulfilled v \<Rightarrow> [Job Fulfill (Some (CallResolve n)) D v, Job Fulfill None (Suc D) v]
       | Rejected e \<Rightarrow> [Job Reject None D e, Job Reject (Some (CallReject n)) (Suc D) e])"
    and "all_values u = all_values t" and "remainingElementsCount u = remainingElementsCount t"
proof -
  let ?t1 = "snd (then_promise q (Some (CallResolve n)) None t)"
  from P len have q: "q < length (heap t)" by simp
  have t1: "?t1 = (case status (heap t ! q) of
       Pending \<Rightarrow> t\<lparr>heap := (heap t @ [fresh])[q := (heap t ! q)\<lparr>reactions := reactions (heap t ! q) @ [Reg (Some (CallResolve n)) None D]\<rparr>]\<rparr>
     | Fulfilled v \<Rightarrow> t\<lparr>heap := heap t @ [fresh], jobs := jobs t @ [Job Fulfill (Some (CallResolve n)) D v]\<rparr>
     | Rejected e \<Rightarrow> t\<lparr>heap := heap t @ [fresh], jobs := jobs t @ [Job Reject None D e]\<rparr>)"
    unfolding then_promise_snd [OF q] len by (rule refl)
  have l1: "length (heap ?t1) = Suc D" using len by (simp add: t1 split: pstate.splits)
  then have q1: "q < length (heap ?t1)" using P by simp
  have st1: "status (heap ?t1 ! q) = status (heap t ! q)"
    using q by (simp add: t1 nth_append split: pstate.splits)
  have u: "u = (case status (heap t ! q) of
       Pending \<Rightarrow> ?t1\<lparr>heap := (heap ?t1 @ [fresh])[q := (heap ?t1 ! q)\<lparr>reactions := reactions (heap ?t1 ! q) @ [Reg None (Some (CallReject n)) (Suc D)]\<rparr>]\<rparr>
     | Fulfilled v \<Rightarrow> ?t1\<lparr>heap := heap ?t1 @ [fresh], jobs := jobs ?t1 @ [Job Fulfill None (Suc D) v]\<rparr>
     | Rejected e \<Rightarrow> ?t1\<lparr>heap := heap ?t1 @ [fresh], jobs := jobs ?t1 @ [Job Reject (Some (CallReject n)) (Suc D) e]\<rparr>)"
    unfolding u_def catch_promise_def then_promise_snd [OF q1] st1 l1 by (rule refl)
  show "heap u =
      (case status (heap t ! q) of
         Pending \<Rightarrow> (heap t)[q := (heap t ! q)\<lparr>reactions := reactions (heap t ! q) @
            [Reg (Some (CallResolve n)) None D, Reg None (Some (CallReject n)) (Suc D)]\<rparr>]
       | _ \<Rightarrow> heap t) @ [fresh, fresh]"
    using q unfolding u
    by (cases "status (heap t ! q)") (simp_all add: t1 nth_append list_update_append)
  show "jobs u = jobs t @
      (case status (heap t ! q) of
         Pending \<Rightarrow> []
       | Fulfilled v \<Rightarrow> [Job Fulfill (Some (CallResolve n)) D v, Job Fulfill None (Suc D) v]
       | Rejected e \<Rightarrow> [Job Reject None D e, Job Reject (Some (CallReject n)) (Suc D) e])"
    unfolding u by (cases "status (heap t ! q)") (simp_all add: t1)
  show "all_values u = all_values t" "remainingElementsCount u = remainingElementsCount t"
    unfolding u by (cases "status (heap t ! q)"; simp add: t1)+
qed

lemma processAllPromises_inv:
  assumes idle: "idle n s0" and A: "\<forall>q \<in> set A. q < n"
  defines "s1 \<equiv> snd (processAllPromises A s0)"
  shows "fst (processAllPromises A s0) = n" and "all_inv n A s1"
    and "all_q n s1 = at_call A s0" and "\<forall>e. status (heap s1 ! Suc n) \<noteq> Rejected e"
    and "\<forall>q<n. status (heap s1 ! q) = status (heap s0 ! q)"
proof -
  let ?N = "length A" and ?D1 = "n + 2 + length A" and ?D2 = "n + 3 + length A"
  define s2 where "s2 = s0\<lparr>heap := heap s0 @ [fresh, fresh], all_values := [], remainingElementsCount := 1\<rparr>"
  define s3 where "s3 = all_loop (Suc n) 0 A s2"
  from idle have len0: "length (heap s0) = n" and j0: "jobs s0 = []" by (simp_all add: idle_def)
  have h2: "\<And>q. q < n \<Longrightarrow> heap s2 ! q = heap s0 ! q" using len0 by (simp add: s2_def nth_append)
  have "all_loop_inv n A [] s2"
    unfolding all_loop_inv_def using idle
    by (auto simp: h2 idle_def idxs_def all_q_def at_call_def List.map_filter_def)
       (auto simp: s2_def nth_append nth_Cons' idle_def)
  from all_loop_fold [OF this _ A, of A]
  have r3: "all_loop_inv n A A s3" and st3: "\<forall>q<n. status (heap s3 ! q) = status (heap s2 ! q)"
    by (simp_all add: s3_def)
  from r3 have len3: "length (heap s3) = ?D1" and P3: "heap s3 ! Suc n = fresh"
    and fr: "\<And>q. n \<le> q \<Longrightarrow> q < ?D1 \<Longrightarrow> heap s3 ! q = fresh"
    and av3: "all_values s3 = replicate ?N Undefined"
    and rc3: "remainingElementsCount s3 = Suc ?N"
    by (simp_all add: all_loop_inv_def)
  let ?P = "if A = [] then \<lparr>status = Fulfilled (Arr []), reactions = []\<rparr> else fresh\<lparr>reactions := wregs n ?N\<rparr>"
  let ?J = "if A = [] then [Job Fulfill (Some (CallResolve n)) ?D1 (Arr []), Job Fulfill None ?D2 (Arr [])] else []"
  have unf: "processAllPromises A s0 =
      (case new_promise (s0\<lparr>heap := heap s0 @ [fresh]\<rparr>) of (all, t1) \<Rightarrow>
        (let t3 = s3\<lparr>remainingElementsCount := remainingElementsCount s3 - 1\<rparr>;
             t4 = (if remainingElementsCount t3 = 0 then resolve all (Arr (all_values t3)) t3 else t3)
         in case then_promise all (Some (CallResolve n)) None t4 of (d1, t5) \<Rightarrow>
            case catch_promise all (Some (CallReject n)) t5 of (d2, t6) \<Rightarrow> (n, t6)))"
    using len0
    by (simp add: processAllPromises_def Promise_all_def new_promise_def s3_def s2_def fresh_def Let_def split_def)
  define t4 where "t4 = (if A = [] then resolve (Suc n) (Arr []) (s3\<lparr>remainingElementsCount := ?N\<rparr>)
      else s3\<lparr>remainingElementsCount := ?N\<rparr>)"
  have unf2: "processAllPromises A s0 =
      (case then_promise (Suc n) (Some (CallResolve n)) None t4 of (d1, t5) \<Rightarrow>
       case catch_promise (Suc n) (Some (CallReject n)) t5 of (d2, t6) \<Rightarrow> (n, t6))"
    unfolding unf t4_def using len0 by (simp add: new_promise_def rc3 av3 Let_def)
  have keep: "(heap s3)[Suc n := fresh] = heap s3"
    using list_update_id [of "heap s3" "Suc n"] P3 by simp
  have h4: "heap t4 = (heap s3)[Suc n := (if A = [] then \<lparr>status = Fulfilled (Arr []), reactions = []\<rparr> else fresh)]"
    using len3 P3 keep by (simp add: t4_def heap_resolving_whole fresh_def)
  have j4: "jobs t4 = jobs s3"
    using len3 P3 by (simp add: t4_def jobs_resolving fresh_def)
  have av4: "all_values t4 = all_values s3" and rc4: "remainingElementsCount t4 = ?N"
    by (simp_all add: t4_def)
  have l4: "length (heap t4) = ?D1" using len3 by (simp add: h4)
  have P4: "heap t4 ! Suc n = (if A = [] then \<lparr>status = Fulfilled (Arr []), reactions = []\<rparr> else fresh)"
    using len3 by (simp add: h4)
  show "fst (processAllPromises A s0) = n" by (simp add: unf2 split_def)
  have s1: "s1 = snd (catch_promise (Suc n) (Some (CallReject n))
      (snd (then_promise (Suc n) (Some (CallResolve n)) None t4)))"
    by (simp add: s1_def unf2 split_def)
  have Pl: "Suc n < ?D1" by simp
  note wr = wrap_register [OF l4 Pl, of n, folded s1]
  have hs1: "heap s1 = (heap s3)[Suc n := ?P] @ [fresh, fresh]"
    unfolding wr(1) P4 by (simp add: h4 fresh_def wregs_def numeral_3_eq_3)
  have js1: "jobs s1 = jobs s3 @ ?J"
    unfolding wr(2) P4 by (simp add: j4 fresh_def numeral_3_eq_3)
  have av1: "all_values s1 = all_values s3" and rc1: "remainingElementsCount s1 = ?N"
    by (simp_all add: wr(3,4) av4 rc4)
  have hq: "\<And>q. q \<noteq> Suc n \<Longrightarrow> q < ?D1 \<Longrightarrow> heap s1 ! q = heap s3 ! q"
    using len3 by (simp add: hs1 nth_append)
  have hP: "heap s1 ! Suc n = ?P" using len3 by (simp add: hs1 nth_append)
  have hD: "\<And>q. ?D1 \<le> q \<Longrightarrow> q < n + 4 + ?N \<Longrightarrow> heap s1 ! q = fresh"
    using len3 by (auto simp: hs1 nth_append nth_Cons')
  show "\<forall>e. status (heap s1 ! Suc n) \<noteq> Rejected e" by (simp add: hP fresh_def)
  show st: "\<forall>q<n. status (heap s1 ! q) = status (heap s0 ! q)"
    using st3 by (simp add: hq h2)
  have obsJ: "List.map_filter (all_obs n) ?J = []" by (simp add: List.map_filter_def)
  show "all_q n s1 = at_call A s0"
  proof -
    have "all_q n s1 = all_q n s3" using obsJ by (simp add: all_q_def js1 qobs_append)
    also have "\<dots> = at_call A s3" using r3 by (simp add: all_loop_inv_def)
    also have "\<dots> = at_call A s0" using A st3 by (intro at_call_cong) (simp add: h2)
    finally show ?thesis .
  qed
  have jl: "\<forall>j \<in> set (jobs s3). target j < n + 2 + ?N \<and> all_job n A s3 j"
    using r3 by (simp add: all_loop_inv_def)
  have Ai: "\<And>i. i < ?N \<Longrightarrow> A ! i < n" using A by simp
  have sti: "status (heap s1 ! (A ! i)) = status (heap s3 ! (A ! i))" if "i < ?N" for i
    using Ai [OF that] hq [of "A ! i"] by simp
  have jl1: "\<forall>j \<in> set (jobs s3). all_job n A s1 j"
  proof
    fix j assume "j \<in> set (jobs s3)"
    with jl have "all_job n A s3 j" by simp
    then show "all_job n A s1 j" unfolding all_job_def using sti by auto
  qed
  have lq1: "lq n ?N s1 = jobs s3"
    using jl by (simp add: lq_def js1 filter_id_conv)
  have wq1: "wq n ?N s1 = ?J"
    using jl by (simp add: wq_def js1 filter_empty_conv not_le)
  have regs: "\<forall>p<n. status (heap s1 ! p) = Pending \<longrightarrow>
      reactions (heap s1 ! p) = map (all_reg n) (idxs A ?N p)"
    using r3 by (simp add: hq all_loop_inv_def)
  have wph: "wphase n ?N s1"
    unfolding wphase_def wq1 hP hq [of n, simplified] using fr [of n]
    by (simp add: fresh_def wregs_def)
  have wi: "wrap_inv n ?N s1"
    unfolding wrap_inv_def
  proof (intro conjI allI impI ballI)
    show "length (heap s1) = n + 4 + ?N" using len3 by (simp add: hs1)
    show "reactions (heap s1 ! p) = []" if "n \<le> p \<and> p < n + 4 + ?N \<and> p \<noteq> Suc n" for p
      using that hD [of p] fr [of p] by (cases "p < ?D1") (simp_all add: hq fresh_def)
    show "lib_job n ?N j" if "j \<in> set (jobs s1)" "target j < n + 2 + ?N" for j
    proof -
      from that have "j \<in> set (lq n ?N s1)" by (simp add: lq_def)
      with jl show ?thesis by (auto simp: lq1 intro: all_job_lib)
    qed
    show "lib_reg n ?N r" if "p < n" "status (heap s1 ! p) = Pending" "r \<in> set (reactions (heap s1 ! p))" for p r
      using that regs by (auto simp: all_reg_lib dest: idxs_bound)
    show "wphase n ?N s1" by (rule wph)
  qed
  have nofd: "\<not> fdone n A s1 i" if "i < ?N" for i
  proof
    assume "fdone n A s1 i"
    then have f: "is_fulfilled (status (heap s1 ! (A ! i)))" and nq: "\<not> queued n ?N s1 i"
      by (simp_all add: fdone_def)
    from f sti [OF that] have "status (heap s3 ! (A ! i)) \<noteq> Pending" by auto
    with r3 that have "n + 2 + i \<in> set (map target (jobs s3))" by (simp add: all_loop_inv_def)
    with nq show False by (simp add: queued_def lq1)
  qed
  then have empty: "{i. i < ?N \<and> fdone n A s1 i} = {}" by auto
  have aph: "all_phase n s1"
    by (simp add: all_phase_def hP fresh_def av1 av3 rc1)
  have dist: "distinct (map target (lq n ?N s1))" using r3 by (simp add: lq1 all_loop_inv_def)
  show "all_inv n A s1"
    unfolding all_inv_def empty using wi A regs jl1 dist nofd aph
    by (simp add: av1 av3 rc1 lq1)
qed

subsection \<open>The values in input order, or the first failure observed\<close>

lemma all_tick: "all_inv n A s \<Longrightarrow> all_inv n A (tick s) \<and> (\<forall>p<n. heap (tick s) ! p = heap s ! p)"
  using all_inv_tick [of n A s "[]"] by simp

lemma all_run_verdict:
  assumes "all_inv n A s"
    and "\<forall>p<n. (p \<in> set dn \<longleftrightarrow> status (heap s ! p) \<noteq> Pending)"
  shows "verdict n (run n evs s) [] = verdict n s (observed A (settlements n dn evs))"
  using assms
proof (induction evs arbitrary: s dn)
  case Nil
  then show ?case by (simp add: run_def)
next
  case (Cons e evs)
  show ?case
  proof (cases e)
    case Tick
    from all_inv_tick [OF Cons.prems(1)]
    have ci: "all_inv n A (tick s)" and tasks: "\<forall>p<n. heap (tick s) ! p = heap s ! p"
      and w: "\<And>rest. verdict n (tick s) rest = verdict n s rest"
      by simp_all
    from Cons.prems(2) tasks
    have ag: "\<forall>p<n. (p \<in> set dn \<longleftrightarrow> status (heap (tick s) ! p) \<noteq> Pending)" by simp
    from Cons.IH [OF ci ag] w show ?thesis by (simp add: Tick run_Cons)
  next
    case (Settle q out)
    show ?thesis
    proof (cases "q < n \<and> q \<notin> set dn")
      case False
      then have "step n e s = s"
        using Cons.prems(2) by (auto simp: Settle settle_task_eq resolving_def)
      moreover from False have "settlements n dn (e # evs) = settlements n dn evs"
        by (auto simp: Settle)
      ultimately show ?thesis using Cons.IH [OF Cons.prems] by (simp add: run_Cons)
    next
      case True
      let ?s = "resolving (kind_of out) q (val_of out) s"
      from True Cons.prems(2) have pe: "status (heap s ! q) = Pending" and q: "q < n" by auto
      from Cons.prems(1) have "length (heap s) = n + 4 + length A"
        by (simp add: all_inv_def wrap_inv_def)
      with q have qlen: "q < length (heap s)" by simp
      note rt = all_inv_task [OF Cons.prems(1) q, of "kind_of out" "val_of out"]
      have ag: "\<forall>r<n. (r \<in> set (q # dn) \<longleftrightarrow> status (heap ?s ! r) \<noteq> Pending)"
        using Cons.prems(2) pe qlen by (auto simp: heap_resolving)
      have "verdict n ?s rest = verdict n s (replicate (count_list A q) out @ rest)" for rest
        unfolding verdict_def rt(2) [OF pe] rt(3) mk_kind_val append_assoc by (rule refl)
      with Cons.IH [OF rt(1) ag] show ?thesis
        using True by (simp add: Settle run_Cons settle_task_eq observed_Cons)
    qed
  qed
qed

lemma all_drain_verdict: "all_inv n A s \<Longrightarrow> verdict n (drain s) [] = verdict n s []"
proof (induction s rule: drain.induct)
  case (1 s)
  show ?case
  proof (cases "jobs s = []")
    case True
    then show ?thesis by (simp add: drain_empty)
  next
    case False
    from all_inv_tick [OF "1.prems", of "[]"]
    have ci: "all_inv n A (tick s)" and w: "verdict n (tick s) [] = verdict n s []" by simp_all
    from "1.IH" [OF False ci] w show ?thesis by (simp add: drain_tick [OF False])
  qed
qed

text \<open>The promise of \<^verbatim>\<open>Promise.all\<close> once the queue is empty.\<close>

lemma all_quiet:
  assumes inv: "all_inv n A s" and js: "jobs s = []"
    and nr: "\<forall>e. status (heap s ! Suc n) \<noteq> Rejected e"
  shows "status (heap s ! Suc n) =
    (if \<forall>p \<in> set A. is_fulfilled (status (heap s ! p))
     then Fulfilled (Arr (map (\<lambda>p. fulfilled_value (status (heap s ! p))) A)) else Pending)"
proof -
  let ?N = "length A"
  have fd: "fdone n A s i \<longleftrightarrow> is_fulfilled (status (heap s ! (A ! i)))" for i
    by (simp add: fdone_def queued_def lq_def js)
  from inv have lenv: "length (all_values s) = ?N"
    and vals: "\<forall>i < ?N. fdone n A s i \<longrightarrow> status (heap s ! (A ! i)) = Fulfilled (all_values s ! i)"
    and cnt: "remainingElementsCount s + card {i. i < ?N \<and> fdone n A s i} = ?N"
    and aph: "all_phase n s"
    by (simp_all add: all_inv_def)
  show ?thesis
  proof (cases "\<forall>p \<in> set A. is_fulfilled (status (heap s ! p))")
    case True
    then have all: "\<And>i. i < ?N \<Longrightarrow> fdone n A s i" by (simp add: fd)
    then have "{i. i < ?N \<and> fdone n A s i} = {..<?N}" by auto
    with cnt have r0: "remainingElementsCount s = 0" by simp
    with aph nr have P: "status (heap s ! Suc n) = Fulfilled (Arr (all_values s))"
      by (cases "status (heap s ! Suc n)") (simp_all add: all_phase_def)
    have "all_values s = map (\<lambda>p. fulfilled_value (status (heap s ! p))) A"
    proof (rule nth_equalityI)
      show "length (all_values s) = length (map (\<lambda>p. fulfilled_value (status (heap s ! p))) A)"
        by (simp add: lenv)
      fix i assume "i < length (all_values s)"
      then have i: "i < ?N" by (simp add: lenv)
      with vals all have "status (heap s ! (A ! i)) = Fulfilled (all_values s ! i)" by simp
      with i show "all_values s ! i = map (\<lambda>p. fulfilled_value (status (heap s ! p))) A ! i" by simp
    qed
    with P True show ?thesis by simp
  next
    case False
    then obtain i where i: "i < ?N" and nf: "\<not> fdone n A s i"
      by (auto simp: fd in_set_conv_nth)
    from card_below [OF i, of "fdone n A s", OF nf] cnt have "0 < remainingElementsCount s" by simp
    with aph nr have "status (heap s ! Suc n) = Pending"
      by (cases "status (heap s ! Suc n)") (simp_all add: all_phase_def)
    with False show ?thesis by simp
  qed
qed

lemma all_final:
  fixes pre post :: "event list"
  assumes A: "\<forall>q \<in> set A. q < n"
  defines "s0 \<equiv> run n pre (world n)"
  defines "f \<equiv> drain (run n post (snd (processAllPromises A s0)))"
  defines "obs \<equiv> at_call A s0 @ observed A (settlements n (settled_tasks n s0) post)"
  shows "fst (processAllPromises A s0) = n"
    and "status (heap f ! n) = status (heap f ! Suc n)"
    and "status (heap f ! Suc n) =
      (case first_failure obs of
         Some e \<Rightarrow> Rejected e
       | None \<Rightarrow>
           if \<forall>p \<in> set A. is_fulfilled (status (heap f ! p))
           then Fulfilled (Arr (map (\<lambda>p. fulfilled_value (status (heap f ! p))) A)) else Pending)"
proof -
  let ?s1 = "snd (processAllPromises A s0)"
  have idle: "idle n s0" unfolding s0_def by (intro idle_run idle_world)
  note gi = processAllPromises_inv [OF idle A]
  show "fst (processAllPromises A s0) = n" by (rule gi(1))
  have tick: "\<And>s. all_inv n A s \<Longrightarrow> all_inv n A (tick s)" using all_tick by blast
  have ri: "all_inv n A (run n post ?s1)"
    by (rule inv_run [where I = "all_inv n A", OF tick all_inv_task(1) gi(2)])
  have rf: "all_inv n A f"
    unfolding f_def by (rule inv_drain [where I = "all_inv n A", OF tick ri])
  have jf: "jobs f = []" by (simp add: f_def)
  from rf have wi: "wrap_inv n (length A) f" by (simp add: all_inv_def)
  show "status (heap f ! n) = status (heap f ! Suc n)" by (rule wrap_quiet [OF wi jf])
  have ag: "\<forall>p<n. (p \<in> set (settled_tasks n s0) \<longleftrightarrow> status (heap ?s1 ! p) \<noteq> Pending)"
    using gi(5) by (simp add: settled_tasks_def)
  have "verdict n f [] = verdict n (run n post ?s1) []"
    unfolding f_def by (rule all_drain_verdict [OF ri])
  also have "\<dots> = verdict n ?s1 (observed A (settlements n (settled_tasks n s0) post))"
    by (rule all_run_verdict [OF gi(2) ag])
  also have "\<dots> = first_failure obs"
    using gi(4) by (cases "status (heap ?s1 ! Suc n)") (simp_all add: verdict_def gi(3) obs_def)
  finally have v: "verdict n f [] = first_failure obs" .
  have vf: "verdict n f [] = (case status (heap f ! Suc n) of Rejected e \<Rightarrow> Some e | _ \<Rightarrow> None)"
    by (cases "status (heap f ! Suc n)") (simp_all add: verdict_def all_q_def jf List.map_filter_def)
  show "status (heap f ! Suc n) =
      (case first_failure obs of
         Some e \<Rightarrow> Rejected e
       | None \<Rightarrow>
           if \<forall>p \<in> set A. is_fulfilled (status (heap f ! p))
           then Fulfilled (Arr (map (\<lambda>p. fulfilled_value (status (heap f ! p))) A)) else Pending)"
  proof (cases "first_failure obs")
    case (Some e)
    with v vf have "status (heap f ! Suc n) = Rejected e"
      by (cases "status (heap f ! Suc n)") simp_all
    with Some show ?thesis by simp
  next
    case None
    with v vf have nr: "\<forall>e. status (heap f ! Suc n) \<noteq> Rejected e"
      by (cases "status (heap f ! Suc n)") simp_all
    from all_quiet [OF rf jf nr] None show ?thesis by simp
  qed
qed

text \<open>The tasks after the call of \<^verbatim>\<open>processAllPromises\<close>, a schedule and the run of the queue.\<close>

lemma all_task_status:
  fixes pre post :: "event list"
  assumes A: "\<forall>q \<in> set A. q < n" and p: "p < n"
  defines "s0 \<equiv> run n pre (world n)"
  defines "s \<equiv> run n post (snd (processAllPromises A s0))"
  shows "status (heap s ! p) =
    (case map_of (settlements n (settled_tasks n s0) post) p of
       Some out \<Rightarrow> settled (kind_of out) (val_of out)
     | None \<Rightarrow> status (heap s0 ! p))"
    and "status (heap (drain s) ! p) = status (heap s ! p)"
proof -
  let ?s1 = "snd (processAllPromises A s0)"
  have idle: "idle n s0" unfolding s0_def by (intro idle_run idle_world)
  note gi = processAllPromises_inv [OF idle A]
  have ag: "\<forall>p<n. (p \<in> set (settled_tasks n s0) \<longleftrightarrow> status (heap ?s1 ! p) \<noteq> Pending)"
    using gi(5) by (simp add: settled_tasks_def)
  have len: "\<And>s. all_inv n A s \<Longrightarrow> n \<le> length (heap s)" by (simp add: all_inv_def wrap_inv_def)
  from inv_run_status [where I = "all_inv n A", OF all_tick all_inv_task(1) len gi(2) ag p, of post] gi(5) p
  show "status (heap s ! p) =
    (case map_of (settlements n (settled_tasks n s0) post) p of
       Some out \<Rightarrow> settled (kind_of out) (val_of out)
     | None \<Rightarrow> status (heap s0 ! p))"
    by (simp add: s_def split: option.splits)
  have tick: "\<And>s. all_inv n A s \<Longrightarrow> all_inv n A (tick s)" using all_tick by blast
  have ri: "all_inv n A s"
    unfolding s_def by (rule inv_run [where I = "all_inv n A", OF tick all_inv_task(1) gi(2)])
  from inv_drain_tasks [where I = "all_inv n A", OF all_tick ri p]
  show "status (heap (drain s) ! p) = status (heap s ! p)" by simp
qed

lemmas all_schedule_simps = before_call_status all_task_status at_call_def observed_def settled_tasks_def

section \<open>Where the error of a failed task goes\<close>

subsection \<open>The error of a failed task\<close>




lemma resolving_jobs_sub: "set (jobs s) \<subseteq> set (jobs (resolving k p v s))"
  by (simp add: jobs_resolving)











section \<open>Evaluation on concrete schedules\<close>

lemmas eval_defs =
  run_def world_def chainPromises_def new_promise_def chain_each_def then_promise_def
  catch_promise_def resolving_def settle_promise_def reduce_def tick_def binary_def

section \<open>willYouMarryMe\<close>

text \<open>
  C10. For every argument that is not a boolean (a missing argument is \<open>Undefined\<close>) the
  promise returned by \<^verbatim>\<open>willYouMarryMe\<close> is rejected with the Error whose message is
  'Wrong parameter is passed! Ask her again.': the call of \<^verbatim>\<open>resolve\<close> that follows the
  call of \<^verbatim>\<open>reject\<close> changes nothing. For \<^verbatim>\<open>true\<close> it is fulfilled with
  'Hooray!!! She said "Yes"!' and for \<^verbatim>\<open>false\<close> with 'Oh no, she said "No".'.
\<close>

theorem willYouMarryMe_settles:
  \<open>case willYouMarryMe a s of (p, s') \<Rightarrow>
     (typeof a \<noteq> ''boolean'' \<longrightarrow>
        status (heap s' ! p) = Rejected (Error ''Wrong parameter is passed! Ask her again.'')) \<and>
     (a = Bool True \<longrightarrow> status (heap s' ! p) = Fulfilled (Str ''Hooray!!! She said "Yes"!'')) \<and>
     (a = Bool False \<longrightarrow> status (heap s' ! p) = Fulfilled (Str ''Oh no, she said "No".''))\<close>
  by (cases a) (simp_all add: willYouMarryMe_def new_promise_def resolving_def settle_promise_def
      yes_def no_def wrong_def nth_append)

theorem willYouMarryMe_settles_witness:
  \<open>status (heap (snd (willYouMarryMe Undefined (world 0))) ! fst (willYouMarryMe Undefined (world 0))) =
     Rejected (Error ''Wrong parameter is passed! Ask her again.'') \<and>
   status (heap (snd (willYouMarryMe (Bool True) (world 0))) ! fst (willYouMarryMe (Bool True) (world 0))) =
     Fulfilled (Str ''Hooray!!! She said "Yes"!'') \<and>
   status (heap (snd (willYouMarryMe (Bool False) (world 0))) ! fst (willYouMarryMe (Bool False) (world 0))) =
     Fulfilled (Str ''Oh no, she said "No".'')\<close>
  using willYouMarryMe_settles [of Undefined "world 0"] willYouMarryMe_settles [of "Bool True" "world 0"]
    willYouMarryMe_settles [of "Bool False" "world 0"]
  by (simp add: split_def)

section \<open>chainPromises on a single fulfilled task\<close>

text \<open>
  C7. For the one-element array \<^verbatim>\<open>[Promise.resolve(v)]\<close> (in particular \<open>v = 7\<close>) and any
  reducer, the promise returned by \<^verbatim>\<open>chainPromises\<close> is fulfilled with \<open>v\<close> once the job
  queue has run, and the reducer is never called: the log holds the finalization and the
  call of \<^verbatim>\<open>res\<close>, and no call of the reducer.
\<close>

theorem chainPromises_single:
  "case chainPromises [0] action (run 1 [Settle 0 (Ok v)] (world 1)) of (result, s) \<Rightarrow>
     status (heap (drain s) ! result) = Fulfilled v \<and>
     probes (drain s) = [Fired, ResCalled v]"
  by (simp add: eval_defs drain_unfold)

section \<open>chainPromises when every task succeeds\<close>

text \<open>
  C1, as amended. For every non-empty array of tasks that all succeed and every pure
  binary reducer \<open>op\<close>, once the job queue has run the promise returned by
  \<^verbatim>\<open>chainPromises\<close> is fulfilled with \<open>op\<close> folded from the left over the values of all
  the tasks, the first one as the seed, in the order in which \<^verbatim>\<open>chainPromises\<close> observes
  them: the tasks that had already settled when it was called come first, in array order,
  then the others in the order in which they settle.
\<close>

theorem chainPromises_all_succeed:
  fixes op :: "val \<Rightarrow> val \<Rightarrow> val"
  assumes "A \<noteq> []" and "\<forall>p \<in> set A. p < n"
    and "s0 = run n pre (world n)"
    and "chainPromises A (binary op) s0 = (result, s1)"
    and "f = drain (run n post s1)"
    and "\<forall>p \<in> set A. is_fulfilled (status (heap f ! p))"
    and "vs = successes (at_call A s0 @ observed A (settlements n (settled_tasks n s0) post))"
  shows "status (heap f ! result) = Fulfilled (foldl op (hd vs) (tl vs)) \<and> length vs = length A"
proof -
  from assms(6) have all: "filter (\<lambda>p. is_fulfilled (status (heap f ! p))) A = A" by simp
  then have fu: "ful A f = length A" by (simp add: ful_def)
  from assms(6) have settled: "\<forall>p \<in> set A. status (heap f ! p) \<noteq> Pending" by auto
  from assms(1) fu have "0 < ful A f" by simp
  from chain_fold [OF assms(2,3,4,5) settled this assms(7)] fu show ?thesis by simp
qed

text \<open>
  The scenario of the claim: three tasks that succeed with 1, 2 and 3, in that order, and
  \<^verbatim>\<open>(a, b) => a + b\<close>; the result is 6.
\<close>

theorem chainPromises_all_succeed_witness:
  "status (heap (drain (run 3 [Settle 0 (Ok (Num 1)), Settle 1 (Ok (Num 2)), Settle 2 (Ok (Num 3))]
       (snd (chainPromises [0, 1, 2] (binary num_add) (run 3 [] (world 3))))))
     ! fst (chainPromises [0, 1, 2] (binary num_add) (run 3 [] (world 3)))) =
   Fulfilled (Num 6)"
proof -
  let ?post = "[Settle 0 (Ok (Num 1)), Settle 1 (Ok (Num 2)), Settle 2 (Ok (Num 3))]"
  let ?s0 = "run 3 [] (world 3)"
  let ?c = "chainPromises [0, 1, 2] (binary num_add) ?s0"
  let ?f = "drain (run 3 ?post (snd ?c))"
  have 1: "[0, 1, 2] \<noteq> ([] :: nat list)" by simp
  have 2: "\<forall>p \<in> set [0, 1, 2]. p < (3::nat)" by simp
  have 4: "?c = (fst ?c, snd ?c)" by simp
  have 6: "\<forall>p \<in> set [0, 1, 2]. is_fulfilled (status (heap ?f ! p))"
    by (simp add: schedule_simps)
  have vs: "successes (at_call [0, 1, 2] ?s0 @ observed [0, 1, 2] (settlements 3 (settled_tasks 3 ?s0) ?post)) =
    [Num 1, Num 2, Num 3]"
    by (simp add: schedule_simps)
  from chainPromises_all_succeed [OF 1 2 refl 4 refl 6 refl]
  show ?thesis unfolding vs by simp
qed

text \<open>
  The claim as stated, with the order in which the tasks settled, fails for tasks that
  settled before the call: task 1 succeeds with 2, then task 0 succeeds with 1, then
  \<^verbatim>\<open>chainPromises([task0, task1], (a, b) => a - b)\<close> is called. The order of settlement is
  2, 1 and its fold is 1; the promise is fulfilled with 1 - 2 = -1.
\<close>

theorem chainPromises_all_succeed_counterexample:
  "status (heap (drain (run 2 [] (snd (chainPromises [0, 1] (binary num_sub)
        (run 2 [Settle 1 (Ok (Num 2)), Settle 0 (Ok (Num 1))] (world 2))))))
     ! fst (chainPromises [0, 1] (binary num_sub)
        (run 2 [Settle 1 (Ok (Num 2)), Settle 0 (Ok (Num 1))] (world 2)))) = Fulfilled (Num (- 1)) \<and>
   successes (observed [0, 1] (settlements 2 [] [Settle 1 (Ok (Num 2)), Settle 0 (Ok (Num 1))])) =
     [Num 2, Num 1] \<and>
   foldl num_sub (Num 2) [Num 1] = Num 1"
proof -
  let ?pre = "[Settle 1 (Ok (Num 2)), Settle 0 (Ok (Num 1))]"
  let ?s0 = "run 2 ?pre (world 2)"
  let ?c = "chainPromises [0, 1] (binary num_sub) ?s0"
  let ?f = "drain (run 2 [] (snd ?c))"
  have 2: "\<forall>p \<in> set [0, 1]. p < (2::nat)" by simp
  have 4: "?c = (fst ?c, snd ?c)" by simp
  have 5: "\<forall>p \<in> set [0, 1]. status (heap ?f ! p) \<noteq> Pending"
    by (simp add: schedule_simps)
  have 6: "0 < ful [0, 1] ?f" by (simp add: ful_def schedule_simps)
  have vs: "successes (at_call [0, 1] ?s0 @ observed [0, 1] (settlements 2 (settled_tasks 2 ?s0) [])) =
    [Num 1, Num 2]"
    by (simp add: schedule_simps)
  from chain_fold [OF 2 refl 4 refl 5 6 refl]
  have "status (heap ?f ! fst ?c) = Fulfilled (Num (- 1))" unfolding vs by simp
  moreover have "successes (observed [0, 1] (settlements 2 [] ?pre)) = [Num 2, Num 1]"
    by (simp add: observed_def)
  ultimately show ?thesis by simp
qed

section \<open>chainPromises when some tasks fail\<close>

text \<open>
  C2, as amended. For every array of \<open>N\<close> tasks that have all settled, \<open>k\<close> of them
  successfully with \<open>1 \<le> k < N\<close>, the promise returned by \<^verbatim>\<open>chainPromises\<close> is fulfilled
  with \<open>op\<close> folded over exactly the \<open>k\<close> successful values; a failed task contributes
  nothing. The order is the order of observation: the tasks already settled at the call
  in array order, then the others in the order in which they settle.
\<close>

theorem chainPromises_some_fail:
  fixes op :: "val \<Rightarrow> val \<Rightarrow> val"
  assumes "\<forall>p \<in> set A. p < n"
    and "s0 = run n pre (world n)"
    and "chainPromises A (binary op) s0 = (result, s1)"
    and "f = drain (run n post s1)"
    and "\<forall>p \<in> set A. status (heap f ! p) \<noteq> Pending"
    and "k = length (filter (\<lambda>p. is_fulfilled (status (heap f ! p))) A)"
    and "1 \<le> k" and "k < length A"
    and "vs = successes (at_call A s0 @ observed A (settlements n (settled_tasks n s0) post))"
  shows "status (heap f ! result) = Fulfilled (foldl op (hd vs) (tl vs)) \<and> length vs = k"
proof -
  from assms(6,7) have "0 < ful A f" by (auto simp: ful_def)
  from chain_fold [OF assms(1,2,3,4,5) this assms(9)] assms(6) show ?thesis by (simp add: ful_def)
qed

text \<open>
  The scenario of the claim: \<^verbatim>\<open>[resolve(5), reject('boom'), resolve(10)]\<close> and
  \<^verbatim>\<open>(a, b) => a * b\<close>; the result is 50.
\<close>

theorem chainPromises_some_fail_witness:
  "status (heap (drain (run 3 [] (snd (chainPromises [0, 1, 2] (binary num_mul)
        (run 3 [Settle 0 (Ok (Num 5)), Settle 1 (Fail (Str ''boom'')), Settle 2 (Ok (Num 10))] (world 3))))))
     ! fst (chainPromises [0, 1, 2] (binary num_mul)
        (run 3 [Settle 0 (Ok (Num 5)), Settle 1 (Fail (Str ''boom'')), Settle 2 (Ok (Num 10))] (world 3)))) =
   Fulfilled (Num 50)"
proof -
  let ?pre = "[Settle 0 (Ok (Num 5)), Settle 1 (Fail (Str ''boom'')), Settle 2 (Ok (Num 10))]"
  let ?s0 = "run 3 ?pre (world 3)"
  let ?c = "chainPromises [0, 1, 2] (binary num_mul) ?s0"
  let ?f = "drain (run 3 [] (snd ?c))"
  have 1: "\<forall>p \<in> set [0, 1, 2]. p < (3::nat)" by simp
  have 3: "?c = (fst ?c, snd ?c)" by simp
  have 5: "\<forall>p \<in> set [0, 1, 2]. status (heap ?f ! p) \<noteq> Pending"
    by (simp add: schedule_simps)
  have 6: "2 = length (filter (\<lambda>p. is_fulfilled (status (heap ?f ! p))) [0, 1, 2])"
    by (simp add: schedule_simps)
  have 7: "1 \<le> (2::nat)" and 8: "2 < length [0::nat, 1, 2]" by simp_all
  have vs: "successes (at_call [0, 1, 2] ?s0 @ observed [0, 1, 2] (settlements 3 (settled_tasks 3 ?s0) [])) =
    [Num 5, Num 10]"
    by (simp add: schedule_simps)
  from chainPromises_some_fail [OF 1 refl 3 refl 5 6 7 8 refl]
  show ?thesis unfolding vs by simp
qed

text \<open>
  With the order of settlement the claim fails: task 2 succeeds with 10, task 1 fails,
  task 0 succeeds with 5, all before the call with \<^verbatim>\<open>(a, b) => a - b\<close>. The successful
  values in the order of settlement are 10, 5 and their fold is 5; the promise is
  fulfilled with 5 - 10 = -5.
\<close>

theorem chainPromises_some_fail_counterexample:
  "status (heap (drain (run 3 [] (snd (chainPromises [0, 1, 2] (binary num_sub)
        (run 3 [Settle 2 (Ok (Num 10)), Settle 1 (Fail (Str ''boom'')), Settle 0 (Ok (Num 5))] (world 3))))))
     ! fst (chainPromises [0, 1, 2] (binary num_sub)
        (run 3 [Settle 2 (Ok (Num 10)), Settle 1 (Fail (Str ''boom'')), Settle 0 (Ok (Num 5))] (world 3)))) =
     Fulfilled (Num (- 5)) \<and>
   successes (observed [0, 1, 2]
     (settlements 3 [] [Settle 2 (Ok (Num 10)), Settle 1 (Fail (Str ''boom'')), Settle 0 (Ok (Num 5))])) =
     [Num 10, Num 5] \<and>
   foldl num_sub (Num 10) [Num 5] = Num 5"
proof -
  let ?pre = "[Settle 2 (Ok (Num 10)), Settle 1 (Fail (Str ''boom'')), Settle 0 (Ok (Num 5))]"
  let ?s0 = "run 3 ?pre (world 3)"
  let ?c = "chainPromises [0, 1, 2] (binary num_sub) ?s0"
  let ?f = "drain (run 3 [] (snd ?c))"
  have 2: "\<forall>p \<in> set [0, 1, 2]. p < (3::nat)" by simp
  have 4: "?c = (fst ?c, snd ?c)" by simp
  have 5: "\<forall>p \<in> set [0, 1, 2]. status (heap ?f ! p) \<noteq> Pending"
    by (simp add: schedule_simps)
  have 6: "0 < ful [0, 1, 2] ?f" by (simp add: ful_def schedule_simps)
  have vs: "successes (at_call [0, 1, 2] ?s0 @ observed [0, 1, 2] (settlements 3 (settled_tasks 3 ?s0) [])) =
    [Num 5, Num 10]"
    by (simp add: schedule_simps)
  from chain_fold [OF 2 refl 4 refl 5 6 refl]
  have "status (heap ?f ! fst ?c) = Fulfilled (Num (- 5))" unfolding vs by simp
  moreover have "successes (observed [0, 1, 2] (settlements 3 [] ?pre)) = [Num 10, Num 5]"
    by (simp add: observed_def)
  ultimately show ?thesis by simp
qed

section \<open>chainPromises never rejects\<close>




section \<open>chainPromises settles once, after every task\<close>

text \<open>
  C4. For every non-empty array and every schedule: when the returned promise is settled,
  every task of the array has settled, and no later event changes it; while a task is
  pending the returned promise stays pending and the finalization test has not succeeded,
  however long the queue runs; once every task has settled and the queue has run, the
  test has succeeded exactly once; it never succeeds twice, and \<^verbatim>\<open>res\<close> is called at
  most once.
\<close>

theorem chainPromises_settles_once:
  fixes action :: reducer
  assumes "A \<noteq> []" and "\<forall>p \<in> set A. p < n"
    and "chainPromises A action (run n pre (world n)) = (result, s1)"
    and "s = run n post s1"
  shows "(status (heap s ! result) \<noteq> Pending \<longrightarrow>
            (\<forall>p \<in> set A. status (heap s ! p) \<noteq> Pending) \<and>
            status (heap (run n rest s) ! result) = status (heap s ! result)) \<and>
         ((\<exists>p \<in> set A. status (heap s ! p) = Pending) \<longrightarrow>
            status (heap (drain s) ! result) = Pending \<and> count_list (probes (drain s)) Fired = 0) \<and>
         ((\<forall>p \<in> set A. status (heap s ! p) \<noteq> Pending) \<longrightarrow>
            count_list (probes (drain s)) Fired = 1) \<and>
         count_list (probes s) Fired \<le> 1 \<and>
         length (res_calls (probes s)) \<le> 1 \<and> length (res_calls (probes (drain s))) \<le> 1"
proof -
  from assms(3) have r: "result = fst (chainPromises A action (run n pre (world n)))"
    and s1: "s1 = snd (chainPromises A action (run n pre (world n)))" by simp_all
  from chain_reach(1) [OF assms(2), where action = action and pre = pre] r
  have res: "result = n" by simp
  from chain_reach(2,3) [OF assms(2), where action = action and pre = pre and post = post]
  have ci: "chain_inv n A action s" and cd: "chain_inv n A action (drain s)"
    by (simp_all add: assms(4) s1 chain_inv2_def)
  have tasks: "\<And>p. p \<in> set A \<Longrightarrow> heap (drain s) ! p = heap s ! p"
    using drain_tasks [OF ci] assms(2) by simp
  have 1: "(\<forall>p \<in> set A. status (heap s ! p) \<noteq> Pending) \<and>
      status (heap (run n rest s) ! n) = status (heap s ! n)"
    if "status (heap s ! n) \<noteq> Pending"
    using inv_settled_result [OF ci that] stays_run [OF that, of n rest] by simp
  have 2: "status (heap (drain s) ! n) = Pending \<and> count_list (probes (drain s)) Fired = 0"
    if "\<exists>p \<in> set A. status (heap s ! p) = Pending"
  proof -
    from that tasks have "\<exists>p \<in> set A. status (heap (drain s) ! p) = Pending" by auto
    from inv_pending_task [OF cd this] inv_before(1) [OF cd] inv_probes(1) [OF cd]
    show ?thesis by simp
  qed
  have 3: "count_list (probes (drain s)) Fired = 1"
    if "\<forall>p \<in> set A. status (heap s ! p) \<noteq> Pending"
  proof -
    from that tasks have "\<forall>p \<in> set A. status (heap (drain s) ! p) \<noteq> Pending" by simp
    from inv_all_counted [OF cd assms(1) _ this] inv_probes(1) [OF cd] show ?thesis by simp
  qed
  from 1 2 3 inv_probes [OF ci] inv_probes(2) [OF cd] show ?thesis by (simp add: res)
qed

text \<open>
  One task: pending, the returned promise is pending and nothing was finalized;
  fulfilled with 7 and three jobs later, the returned promise is fulfilled with 7, stays
  so when the environment tries to settle the task again, and the test has succeeded once.
\<close>

theorem chainPromises_settles_once_witness:
  "status (heap (drain (run 1 [] (snd (chainPromises [0] (binary num_add) (run 1 [] (world 1)))))) ! 1) = Pending \<and>
   count_list (probes (drain (run 1 [] (snd (chainPromises [0] (binary num_add) (run 1 [] (world 1))))))) Fired = 0 \<and>
   status (heap (run 1 [Settle 0 (Fail (Str ''late'')), Tick]
       (run 1 [Settle 0 (Ok (Num 7)), Tick, Tick, Tick]
         (snd (chainPromises [0] (binary num_add) (run 1 [] (world 1))))))
     ! 1) = Fulfilled (Num 7) \<and>
   count_list (probes (drain (run 1 [Settle 0 (Ok (Num 7)), Tick, Tick, Tick]
         (snd (chainPromises [0] (binary num_add) (run 1 [] (world 1))))))) Fired = 1"
proof -
  let ?c = "chainPromises [0] (binary num_add) (run 1 [] (world 1))"
  let ?s = "run 1 [] (snd ?c)"
  let ?t = "run 1 [Settle 0 (Ok (Num 7)), Tick, Tick, Tick] (snd ?c)"
  have 1: "[0] \<noteq> ([] :: nat list)" and 2: "\<forall>p \<in> set [0]. p < (1::nat)" by simp_all
  have c: "?c = (1, snd ?c)" by (simp add: eval_defs)
  have pend: "\<exists>p \<in> set [0]. status (heap ?s ! p) = Pending" by (simp add: eval_defs)
  have fulfilled: "status (heap ?t ! 1) = Fulfilled (Num 7)" by (simp add: eval_defs)
  have all: "\<forall>p \<in> set [0]. status (heap ?t ! p) \<noteq> Pending" by (simp add: eval_defs)
  from chainPromises_settles_once [OF 1 2 c refl, of "[]"] pend
  have "status (heap (drain ?s) ! 1) = Pending \<and> count_list (probes (drain ?s)) Fired = 0"
    by blast
  moreover
  from chainPromises_settles_once [OF 1 2 c refl, of "[Settle 0 (Ok (Num 7)), Tick, Tick, Tick]"
      "[Settle 0 (Fail (Str ''late'')), Tick]"] fulfilled all
  have "status (heap (run 1 [Settle 0 (Fail (Str ''late'')), Tick] ?t) ! 1) = Fulfilled (Num 7) \<and>
    count_list (probes (drain ?t)) Fired = 1"
    by simp
  ultimately show ?thesis by simp
qed

section \<open>chainPromises when no task succeeds: the reducer\<close>

text \<open>
  C5, as amended. As long as no task of the array has succeeded, the reducer has not been
  called, and running the job queue does not call it. If the array is not empty and every
  task has failed, then once the queue has run the finalization has fired, the log holds
  nothing else, and the promise derived by \<^verbatim>\<open>allProms.then\<close> is rejected with the
  TypeError that \<^verbatim>\<open>values.reduce(action)\<close> throws on the empty array of results, before
  any call of the callback. If the array is empty the finalization never fires, and the
  fold is not reached.
\<close>

theorem chainPromises_no_success_no_call:
  fixes action :: reducer
  assumes "\<forall>p \<in> set A. p < n"
    and "chainPromises A action (run n pre (world n)) = (result, s1)"
    and "s = run n post s1"
    and "\<forall>p \<in> set A. \<not> is_fulfilled (status (heap s ! p))"
  shows "reducer_calls (probes s) = [] \<and> reducer_calls (probes (drain s)) = [] \<and>
    (A \<noteq> [] \<and> (\<forall>p \<in> set A. status (heap s ! p) \<noteq> Pending) \<longrightarrow>
       probes (drain s) = [Fired] \<and>
       status (heap (drain s) ! (result + 2 + 2 * length A)) =
         Rejected (TypeError ''Reduce of empty array with no initial value'')) \<and>
    (A = [] \<longrightarrow> probes (drain s) = [])"
proof -
  from assms(2) have r: "result = fst (chainPromises A action (run n pre (world n)))"
    and s1: "s1 = snd (chainPromises A action (run n pre (world n)))" by simp_all
  from chain_reach(1) [OF assms(1), where action = action and pre = pre] r
  have res: "result = n" by simp
  from chain_reach(2,3) [OF assms(1), where action = action and pre = pre and post = post]
  have ci: "chain_inv2 n A action s" and cd: "chain_inv2 n A action (drain s)"
    by (simp_all add: assms(3) s1)
  from ci have ci1: "chain_inv n A action s" by (simp add: chain_inv2_def)
  from cd have cd1: "chain_inv n A action (drain s)" by (simp add: chain_inv2_def)
  from drain_tasks [OF ci1] assms(1)
  have same: "\<And>p. p \<in> set A \<Longrightarrow> status (heap (drain s) ! p) = status (heap s ! p)" by simp
  with assms(4) have none: "\<forall>p \<in> set A. \<not> is_fulfilled (status (heap (drain s) ! p))" by simp
  from no_success(3) [OF ci assms(4)] no_success(3) [OF cd none]
  have 1: "reducer_calls (probes s) = [] \<and> reducer_calls (probes (drain s)) = []" by auto
  have 2: "probes (drain s) = [Fired] \<and>
       status (heap (drain s) ! (result + 2 + 2 * length A)) =
         Rejected (TypeError ''Reduce of empty array with no initial value'')"
    if "A \<noteq> []" "\<forall>p \<in> set A. status (heap s ! p) \<noteq> Pending"
  proof -
    from that(2) same have "\<forall>p \<in> set A. status (heap (drain s) ! p) \<noteq> Pending" by simp
    from no_success(4) [OF cd none that(1) _ this] show ?thesis by (simp add: res)
  qed
  have 3: "probes (drain s) = []" if "A = []"
  proof -
    have "status (heap (drain s) ! Suc n) = Pending"
    proof (rule ccontr)
      assume "status (heap (drain s) ! Suc n) \<noteq> Pending"
      from inv_after(2) [OF cd1 this] that show False by simp
    qed
    from inv_before(2) [OF cd1 this] show ?thesis .
  qed
  from 1 2 3 show ?thesis by blast
qed

text \<open>Two tasks that fail, one before the call and one after it; the derived promise is at position 8.\<close>

theorem chainPromises_no_success_no_call_witness:
  "reducer_calls (probes (drain (run 2 [Settle 1 (Fail (Str ''b''))]
     (snd (chainPromises [0, 1] (binary num_add) (run 2 [Settle 0 (Fail (Str ''a''))] (world 2))))))) = [] \<and>
   probes (drain (run 2 [Settle 1 (Fail (Str ''b''))]
     (snd (chainPromises [0, 1] (binary num_add) (run 2 [Settle 0 (Fail (Str ''a''))] (world 2)))))) = [Fired] \<and>
   status (heap (drain (run 2 [Settle 1 (Fail (Str ''b''))]
     (snd (chainPromises [0, 1] (binary num_add) (run 2 [Settle 0 (Fail (Str ''a''))] (world 2)))))) ! 8) =
     Rejected (TypeError ''Reduce of empty array with no initial value'')"
proof -
  let ?c = "chainPromises [0, 1] (binary num_add) (run 2 [Settle 0 (Fail (Str ''a''))] (world 2))"
  let ?s = "run 2 [Settle 1 (Fail (Str ''b''))] (snd ?c)"
  have 1: "\<forall>p \<in> set [0, 1]. p < (2::nat)" by simp
  have f: "fst ?c = 2"
    using chain_reach(1) [OF 1, where action = "binary num_add" and pre = "[Settle 0 (Fail (Str ''a''))]"] .
  then have 2: "?c = (2, snd ?c)" by (simp add: prod_eq_iff)
  have 4: "\<forall>p \<in> set [0, 1]. \<not> is_fulfilled (status (heap ?s ! p))"
    by (simp add: schedule_simps)
  have 5: "[0, 1] \<noteq> ([] :: nat list) \<and> (\<forall>p \<in> set [0, 1]. status (heap ?s ! p) \<noteq> Pending)"
    by (simp add: schedule_simps)
  from chainPromises_no_success_no_call [OF 1 2 refl 4] 5 show ?thesis by simp
qed

text \<open>
  The claim as stated, that the reducer is invoked with undefined operands, fails on the
  array \<^verbatim>\<open>[Promise.reject('boom')]\<close>: the log holds the finalization and nothing else.
\<close>

theorem chainPromises_no_success_counterexample:
  "probes (drain (snd (chainPromises [0] (binary num_add) (run 1 [Settle 0 (Fail (Str ''boom''))] (world 1))))) =
     [Fired] \<and>
   Invoked Undefined Undefined 1 \<notin> set (probes (drain (snd (chainPromises [0] (binary num_add)
     (run 1 [Settle 0 (Fail (Str ''boom''))] (world 1))))))"
  by (simp add: eval_defs drain_unfold)

section \<open>chainPromises when every task fails: pending forever\<close>

text \<open>
  C6. For every non-empty array whose tasks have all failed, whatever happens next, the
  returned promise is pending and is still pending when the job queue has run;
  \<^verbatim>\<open>res\<close> is never called, and the promise derived by \<^verbatim>\<open>allProms.then\<close> is rejected
  with the TypeError that \<^verbatim>\<open>reduce\<close> throws on the empty array.
\<close>

theorem chainPromises_all_fail_pending:
  fixes action :: reducer
  assumes "A \<noteq> []" and "\<forall>p \<in> set A. p < n"
    and "chainPromises A action (run n pre (world n)) = (result, s1)"
    and "s = run n post s1"
    and "\<forall>p \<in> set A. \<exists>e. status (heap s ! p) = Rejected e"
    and "t = run n rest s"
  shows "status (heap t ! result) = Pending \<and> status (heap (drain t) ! result) = Pending \<and>
    status (heap (drain t) ! (result + 2 + 2 * length A)) =
      Rejected (TypeError ''Reduce of empty array with no initial value'') \<and>
    res_calls (probes (drain t)) = []"
proof -
  from assms(3) have r: "result = fst (chainPromises A action (run n pre (world n)))"
    and s1: "s1 = snd (chainPromises A action (run n pre (world n)))" by simp_all
  from chain_reach(1) [OF assms(2), where action = action and pre = pre] r
  have res: "result = n" by simp
  have t: "t = run n (post @ rest) s1" by (simp add: assms(4,6) run_append)
  from chain_reach(2,3) [OF assms(2), where action = action and pre = pre and post = "post @ rest"]
  have ci: "chain_inv2 n A action t" and cd: "chain_inv2 n A action (drain t)"
    by (simp_all add: t s1)
  have st: "status (heap t ! p) = status (heap s ! p)" if "p \<in> set A" for p
    using that assms(5) stays_run [of s p n rest] by (auto simp: assms(6))
  from ci have "chain_inv n A action t" by (simp add: chain_inv2_def)
  from drain_tasks [OF this] assms(2)
  have sd: "\<And>p. p \<in> set A \<Longrightarrow> status (heap (drain t) ! p) = status (heap s ! p)"
    by (simp add: st)
  have none: "\<forall>p \<in> set A. \<not> is_fulfilled (status (heap t ! p))"
    and noned: "\<forall>p \<in> set A. \<not> is_fulfilled (status (heap (drain t) ! p))"
    and alld: "\<forall>p \<in> set A. status (heap (drain t) ! p) \<noteq> Pending"
    using assms(5) by (auto simp: st sd)
  from no_success(2) [OF ci none] no_success(2) [OF cd noned]
    no_success(4) [OF cd noned assms(1) _ alld]
  show ?thesis by (simp add: res)
qed

text \<open>Two tasks that fail after the call; the heap has the derived promise at position 8.\<close>

theorem chainPromises_all_fail_pending_witness:
  "status (heap (drain (run 2 [Tick, Settle 0 (Ok (Num 1))]
       (run 2 [Settle 0 (Fail (Str ''a'')), Settle 1 (Fail (Str ''b''))]
         (snd (chainPromises [0, 1] (binary num_add) (run 2 [] (world 2))))))) ! 2) = Pending \<and>
   status (heap (drain (run 2 [Tick, Settle 0 (Ok (Num 1))]
       (run 2 [Settle 0 (Fail (Str ''a'')), Settle 1 (Fail (Str ''b''))]
         (snd (chainPromises [0, 1] (binary num_add) (run 2 [] (world 2))))))) ! 8) =
     Rejected (TypeError ''Reduce of empty array with no initial value'')"
proof -
  let ?c = "chainPromises [0, 1] (binary num_add) (run 2 [] (world 2))"
  let ?s = "run 2 [Settle 0 (Fail (Str ''a'')), Settle 1 (Fail (Str ''b''))] (snd ?c)"
  have 1: "[0, 1] \<noteq> ([] :: nat list)" and 2: "\<forall>p \<in> set [0, 1]. p < (2::nat)" by simp_all
  have f: "fst ?c = 2" using chain_reach(1) [OF 2, where action = "binary num_add" and pre = "[]"] .
  then have 3: "?c = (2, snd ?c)" by (simp add: prod_eq_iff)
  have 5: "\<forall>p \<in> set [0, 1]. \<exists>e. status (heap ?s ! p) = Rejected e"
    by (simp add: schedule_simps)
  from chainPromises_all_fail_pending [OF 1 2 3 refl 5 refl, of "[Tick, Settle 0 (Ok (Num 1))]"]
  show ?thesis by simp
qed

section \<open>getFastestPromise\<close>

text \<open>
  C9, as amended. For every array of tasks, once the job queue has run the promise
  returned by \<^verbatim>\<open>getFastestPromise\<close> has the status of the first task that \<^verbatim>\<open>Promise.race\<close>
  observes: the tasks that had already settled when it was called come first, in array
  order, then the others in the order in which they settle. It is fulfilled with the value
  of that task if it succeeded, rejected with its error if it failed, and pending if no
  task of the array has settled.
\<close>

theorem getFastestPromise_first_observed:
  assumes "\<forall>p \<in> set A. p < n"
    and "s0 = run n pre (world n)"
    and "getFastestPromise A s0 = (result, s1)"
    and "f = drain (run n post s1)"
  shows "status (heap f ! result) =
    first_settled (at_call A s0 @ observed A (settlements n (settled_tasks n s0) post))"
proof -
  from assms(3) have r: "result = fst (getFastestPromise A s0)" and s1: "s1 = snd (getFastestPromise A s0)"
    by simp_all
  from race_final(1) [OF assms(1), where pre = pre] race_final(2) [OF assms(1), where pre = pre and post = post]
  show ?thesis
    unfolding r assms(4) s1 assms(2) by simp
qed

text \<open>
  Two pending tasks; the second succeeds with 2, then the first fails: the promise is
  fulfilled with 2.
\<close>

theorem getFastestPromise_first_observed_witness:
  "status (heap (drain (run 2 [Settle 1 (Ok (Num 2)), Tick, Settle 0 (Fail (Str ''x''))]
       (snd (getFastestPromise [0, 1] (run 2 [] (world 2))))))
     ! fst (getFastestPromise [0, 1] (run 2 [] (world 2)))) = Fulfilled (Num 2)"
proof -
  let ?post = "[Settle 1 (Ok (Num 2)), Tick, Settle 0 (Fail (Str ''x''))]"
  let ?s0 = "run 2 [] (world 2)"
  let ?c = "getFastestPromise [0, 1] ?s0"
  have 1: "\<forall>p \<in> set [0, 1]. p < (2::nat)" by simp
  have 3: "?c = (fst ?c, snd ?c)" by simp
  have obs: "at_call [0, 1] ?s0 @ observed [0, 1] (settlements 2 (settled_tasks 2 ?s0) ?post) =
    [Ok (Num 2), Fail (Str ''x'')]"
    by (simp add: schedule_simps)
  from getFastestPromise_first_observed [OF 1 refl 3 refl, of ?post]
  show ?thesis unfolding obs by simp
qed

text \<open>
  The claim as stated, with the task that settles first, fails for tasks that settled
  before the call: task 1 succeeds with 2, then task 0 fails with \<^verbatim>\<open>'x'\<close>, then
  \<^verbatim>\<open>getFastestPromise([task0, task1])\<close> is called. The first task to settle succeeded with
  2; the promise is rejected with \<^verbatim>\<open>'x'\<close>.
\<close>

theorem getFastestPromise_first_settled_counterexample:
  "status (heap (drain (run 2 [] (snd (getFastestPromise [0, 1]
        (run 2 [Settle 1 (Ok (Num 2)), Settle 0 (Fail (Str ''x''))] (world 2))))))
     ! fst (getFastestPromise [0, 1]
        (run 2 [Settle 1 (Ok (Num 2)), Settle 0 (Fail (Str ''x''))] (world 2)))) = Rejected (Str ''x'') \<and>
   first_settled (observed [0, 1] (settlements 2 [] [Settle 1 (Ok (Num 2)), Settle 0 (Fail (Str ''x''))])) =
     Fulfilled (Num 2)"
proof -
  let ?pre = "[Settle 1 (Ok (Num 2)), Settle 0 (Fail (Str ''x''))]"
  let ?s0 = "run 2 ?pre (world 2)"
  have 1: "\<forall>p \<in> set [0, 1]. p < (2::nat)" by simp
  have obs: "at_call [0, 1] ?s0 @ observed [0, 1] (settlements 2 (settled_tasks 2 ?s0) []) =
    [Fail (Str ''x''), Ok (Num 2)]"
    by (simp add: schedule_simps)
  from race_final(1) [OF 1, where pre = ?pre] race_final(2) [OF 1, where pre = ?pre and post = "[]"]
  have "status (heap (drain (run 2 [] (snd (getFastestPromise [0, 1] ?s0)))) ! fst (getFastestPromise [0, 1] ?s0)) =
    Rejected (Str ''x'')"
    unfolding obs by simp
  moreover have "first_settled (observed [0, 1] (settlements 2 [] ?pre)) = Fulfilled (Num 2)"
    by (simp add: observed_def)
  ultimately show ?thesis by simp
qed

section \<open>processAllPromises\<close>

text \<open>
  C8, as amended. For every array of tasks, once the job queue has run the promise
  returned by \<^verbatim>\<open>processAllPromises\<close> has the status of the promise that \<^verbatim>\<open>Promise.all\<close>
  made for that array. It is rejected with the error of the first failure that
  \<^verbatim>\<open>Promise.all\<close> observes: the tasks that had already settled when it was called come
  first, in array order, then the others in the order in which they settle. Without a
  failure it is fulfilled with the values of all the tasks, in input order, once every
  task has succeeded, and pending until then.
\<close>

theorem processAllPromises_settles:
  assumes "\<forall>p \<in> set A. p < n"
    and "s0 = run n pre (world n)"
    and "processAllPromises A s0 = (result, s1)"
    and "f = drain (run n post s1)"
    and "obs = at_call A s0 @ observed A (settlements n (settled_tasks n s0) post)"
  shows "status (heap f ! result) = status (heap f ! fst (Promise_all A (snd (new_promise s0)))) \<and>
    status (heap f ! result) =
      (case first_failure obs of
         Some e \<Rightarrow> Rejected e
       | None \<Rightarrow>
           if \<forall>p \<in> set A. is_fulfilled (status (heap f ! p))
           then Fulfilled (Arr (map (\<lambda>p. fulfilled_value (status (heap f ! p))) A)) else Pending)"
proof -
  from assms(3) have "result = fst (processAllPromises A s0)" and s1: "s1 = snd (processAllPromises A s0)"
    by simp_all
  with all_final(1) [OF assms(1), where pre = pre] have r: "result = n" by (simp add: assms(2))
  have f: "f = drain (run n post (snd (processAllPromises A (run n pre (world n)))))"
    by (simp add: assms(4) s1 assms(2))
  have "idle n s0" unfolding assms(2) by (intro idle_run idle_world)
  then have "length (heap s0) = n" by (simp add: idle_def)
  then have P: "fst (Promise_all A (snd (new_promise s0))) = Suc n"
    by (simp add: Promise_all_fst new_promise_def)
  have 1: "status (heap f ! result) = status (heap f ! Suc n)"
    unfolding r f by (rule all_final(2) [OF assms(1)])
  have 2: "status (heap f ! Suc n) =
      (case first_failure obs of
         Some e \<Rightarrow> Rejected e
       | None \<Rightarrow>
           if \<forall>p \<in> set A. is_fulfilled (status (heap f ! p))
           then Fulfilled (Arr (map (\<lambda>p. fulfilled_value (status (heap f ! p))) A)) else Pending)"
    unfolding f assms(5) assms(2) by (rule all_final(3) [OF assms(1)])
  show ?thesis unfolding P by (intro conjI) (rule 1, rule trans [OF 1 2])
qed

text \<open>
  Two pending tasks; the second succeeds with 2, then the first with 1: the promise is
  fulfilled with \<^verbatim>\<open>[1, 2]\<close>, the input order.
\<close>

theorem processAllPromises_settles_witness:
  "status (heap (drain (run 2 [Settle 1 (Ok (Num 2)), Tick, Settle 0 (Ok (Num 1))]
       (snd (processAllPromises [0, 1] (run 2 [] (world 2))))))
     ! fst (processAllPromises [0, 1] (run 2 [] (world 2)))) = Fulfilled (Arr [Num 1, Num 2])"
proof -
  let ?post = "[Settle 1 (Ok (Num 2)), Tick, Settle 0 (Ok (Num 1))]"
  let ?s0 = "run 2 [] (world 2)"
  let ?c = "processAllPromises [0, 1] ?s0"
  let ?f = "drain (run 2 ?post (snd ?c))"
  have 1: "\<forall>p \<in> set [0, 1]. p < (2::nat)" by simp
  have 3: "?c = (fst ?c, snd ?c)" by simp
  have obs: "at_call [0, 1] ?s0 @ observed [0, 1] (settlements 2 (settled_tasks 2 ?s0) ?post) =
    [Ok (Num 2), Ok (Num 1)]"
    by (simp add: all_schedule_simps)
  have ful: "(\<forall>p \<in> set [0, 1]. is_fulfilled (status (heap ?f ! p))) = True"
    by (simp add: all_schedule_simps)
  have vals: "map (\<lambda>p. fulfilled_value (status (heap ?f ! p))) [0, 1] = [Num 1, Num 2]"
    by (simp add: all_schedule_simps)
  note th = processAllPromises_settles [OF 1 refl 3 refl refl, of ?post,
      unfolded obs ful vals first_failure.simps option.case if_True]
  show ?thesis by (rule conjunct2 [OF th])
qed

text \<open>
  The claim as stated, with the first failure, fails for tasks that settled before the
  call: task 1 fails with \<^verbatim>\<open>'b'\<close>, then task 0 fails with \<^verbatim>\<open>'a'\<close>, then
  \<^verbatim>\<open>processAllPromises([task0, task1])\<close> is called. The first failure is \<^verbatim>\<open>'b'\<close>; the
  promise is rejected with \<^verbatim>\<open>'a'\<close>.
\<close>

theorem processAllPromises_first_failure_counterexample:
  "status (heap (drain (run 2 [] (snd (processAllPromises [0, 1]
        (run 2 [Settle 1 (Fail (Str ''b'')), Settle 0 (Fail (Str ''a''))] (world 2))))))
     ! fst (processAllPromises [0, 1]
        (run 2 [Settle 1 (Fail (Str ''b'')), Settle 0 (Fail (Str ''a''))] (world 2)))) = Rejected (Str ''a'') \<and>
   first_failure (observed [0, 1] (settlements 2 [] [Settle 1 (Fail (Str ''b'')), Settle 0 (Fail (Str ''a''))])) =
     Some (Str ''b'')"
proof -
  let ?pre = "[Settle 1 (Fail (Str ''b'')), Settle 0 (Fail (Str ''a''))]"
  let ?s0 = "run 2 ?pre (world 2)"
  have 1: "\<forall>p \<in> set [0, 1]. p < (2::nat)" by simp
  have obs: "at_call [0, 1] ?s0 @ observed [0, 1] (settlements 2 (settled_tasks 2 ?s0) []) =
    [Fail (Str ''a''), Fail (Str ''b'')]"
    by (simp add: all_schedule_simps)
  from all_final(1) [OF 1, where pre = ?pre]
    all_final(2) [OF 1, where pre = ?pre and post = "[]"]
    all_final(3) [OF 1, where pre = ?pre and post = "[]"]
  have "status (heap (drain (run 2 [] (snd (processAllPromises [0, 1] ?s0)))) ! fst (processAllPromises [0, 1] ?s0)) =
    Rejected (Str ''a'')"
    unfolding obs by simp
  moreover have "first_failure (observed [0, 1] (settlements 2 [] ?pre)) = Some (Str ''b'')"
    by (simp add: observed_def)
  ultimately show ?thesis by simp
qed

end
